theory Spec2Isabelle
  imports Complex_Main "HOL-Library.Stream" "HOL-Library.Multiset" "HOL-Library.While_Combinator"
    "HOL-Library.Log_Nat"
begin

section \<open>Python values and library functions used by the generator\<close>

text \<open>
  The two variants of the program (\<^verbatim>\<open>FamilyTree.py\<close> with \<^verbatim>\<open>PersonFactory.py\<close>, and
  \<^verbatim>\<open>family_tree_ai.py\<close> with \<^verbatim>\<open>person_factory_ai.py\<close>) are embedded side by side;
  a definition of the second variant carries the suffix \<open>_ai\<close> where the names coincide.
  Python integers are \<open>int\<close>. A Python float is the rational number it denotes. The
  rates, life expectancies and weights read from the data files are combined by exact
  rational arithmetic. The birth-year distribution, whose results depend on how each
  intermediate value is rounded, is computed in IEEE 754 double precision: every division,
  multiplication and addition there is rounded to the nearest double, a tie going to the
  even significand.
  Exceptions are values of the type \<open>error\<close>; a function that can raise returns
  \<open>error + 'a\<close>.
\<close>

datatype error = KeyError | ValueError | IndexError | OverflowError | ZeroDivisionError

text \<open>\<^verbatim>\<open>round(x)\<close> on a float: the nearest integer, a tie going to the even one.\<close>

definition py_round :: "rat \<Rightarrow> int" where
  "py_round x =
     (let f = \<lfloor>x\<rfloor>; d = x - of_int f
      in if d < 1 / 2 then f
         else if 1 / 2 < d then f + 1
         else if even f then f else f + 1)"

text \<open>\<^verbatim>\<open>int(x)\<close> on a float truncates towards zero.\<close>

definition py_int :: "rat \<Rightarrow> int" where
  "py_int x = (if 0 \<le> x then \<lfloor>x\<rfloor> else \<lceil>x\<rceil>)"

subsection \<open>Double-precision arithmetic\<close>

text \<open>
  The binary exponent of a rational other than zero: the \<open>e\<close> with
  \<open>2\<^sup>e \<le> \<bar>x\<bar> < 2\<^sup>e\<^sup>+\<^sup>1\<close>, read off the bit length of the integer part of \<open>\<bar>x\<bar>\<close> or of
  its reciprocal.
\<close>

definition float_exponent :: "rat \<Rightarrow> int" where
  "float_exponent x =
     (let a = \<bar>x\<bar>
      in if 1 \<le> a then bitlen \<lfloor>a\<rfloor> - 1 else - bitlen (\<lceil>1 / a\<rceil> - 1))"

text \<open>
  The nearest double to a rational: the significand has 53 bits, so the last place of a
  number with binary exponent \<open>e\<close> is worth \<open>2\<^sup>e\<^sup>-\<^sup>5\<^sup>2\<close>, and \<open>2\<^sup>-\<^sup>1\<^sup>0\<^sup>7\<^sup>4\<close> below the
  smallest normal exponent \<open>-1022\<close>; a tie goes to the even significand.
\<close>

definition round_to_double :: "rat \<Rightarrow> rat" where
  "round_to_double x =
     (if x = 0 then 0
      else
        let ulp = 2 powi (max (float_exponent x) (- 1022) - 52)
        in of_int (py_round (x / ulp)) * ulp)"

text \<open>
  A result whose exponent exceeds 1023 is not a finite double. Python raises
  \<^verbatim>\<open>OverflowError\<close> when such a result comes from an integer (conversion to float, true
  division of integers). A float multiplication or addition returns \<^verbatim>\<open>inf\<close> instead, and in
  the birth-year distribution every float so obtained is passed on to \<^verbatim>\<open>round\<close>, which
  raises \<^verbatim>\<open>OverflowError\<close> on \<^verbatim>\<open>inf\<close>; the exception is recorded where the overflow occurs.
\<close>

definition as_double :: "rat \<Rightarrow> error + rat" where
  "as_double x =
     (let r = round_to_double x
      in if r \<noteq> 0 \<and> 1023 < float_exponent r then Inl OverflowError else Inr r)"

text \<open>
  \<^verbatim>\<open>float(i)\<close> for an integer, \<^verbatim>\<open>a / b\<close> for two integers, and \<^verbatim>\<open>x * y\<close> and \<^verbatim>\<open>x + y\<close>
  for two floats.
\<close>

definition int_to_float :: "int \<Rightarrow> error + rat" where
  "int_to_float i = as_double (of_int i)"

definition int_true_divide :: "int \<Rightarrow> int \<Rightarrow> error + rat" where
  "int_true_divide a b =
     (if b = 0 then Inl ZeroDivisionError else as_double (of_int a / of_int b))"

definition float_mul :: "rat \<Rightarrow> rat \<Rightarrow> error + rat" where
  "float_mul x y = as_double (x * y)"

definition float_add :: "rat \<Rightarrow> rat \<Rightarrow> error + rat" where
  "float_add x y = as_double (x + y)"

text \<open>
  A list comprehension \<^verbatim>\<open>[f(x) for x in xs]\<close> whose element expression can raise: the
  first exception ends it.
\<close>

fun comprehension :: "('a \<Rightarrow> error + 'b) \<Rightarrow> 'a list \<Rightarrow> error + 'b list" where
  "comprehension f [] = Inr []"
| "comprehension f (x # xs) =
     (case f x of
        Inl e \<Rightarrow> Inl e
      | Inr y \<Rightarrow> (case comprehension f xs of Inl e \<Rightarrow> Inl e | Inr ys \<Rightarrow> Inr (y # ys)))"

text \<open>\<^verbatim>\<open>str(n)\<close> for an integer, and the decade key \<^verbatim>\<open>f"{(year // 10) * 10}s"\<close>.\<close>

definition digit_char :: "nat \<Rightarrow> char" where
  "digit_char n = ''0123456789'' ! n"

fun str_nat :: "nat \<Rightarrow> string" where
  "str_nat n = (if n < 10 then [digit_char n] else str_nat (n div 10) @ [digit_char (n mod 10)])"

declare str_nat.simps [simp del]

definition str_int :: "int \<Rightarrow> string" where
  "str_int i = (if i < 0 then CHR ''-'' # str_nat (nat (- i)) else str_nat (nat i))"

definition decade_key :: "int \<Rightarrow> string" where
  "decade_key year = str_int ((year div 10) * 10) @ ''s''"

text \<open>\<^verbatim>\<open>d.get(k, default)\<close> and the lookup \<^verbatim>\<open>d[k]\<close> of a \<^verbatim>\<open>defaultdict(list)\<close>.\<close>

definition dict_get :: "('k \<rightharpoonup> 'v) \<Rightarrow> 'k \<Rightarrow> 'v \<Rightarrow> 'v" where
  "dict_get d k dflt = (case d k of None \<Rightarrow> dflt | Some v \<Rightarrow> v)"

definition defaultdict_get :: "('k \<rightharpoonup> 'v list) \<Rightarrow> 'k \<Rightarrow> 'v list" where
  "defaultdict_get d k = (case d k of None \<Rightarrow> [] | Some v \<Rightarrow> v)"

subsection \<open>The module \<^verbatim>\<open>random\<close>\<close>

text \<open>
  The generator's state is an infinite sequence of raw draws; each library call
  consumes the next one. Every outcome of a call is the image of some raw draw, so a
  statement for all sequences is a statement for all runs.
  \<^verbatim>\<open>random.random()\<close> returns a multiple of \<open>2\<^sup>-\<^sup>5\<^sup>3\<close> in \<open>[0, 1)\<close>;
  \<^verbatim>\<open>random.randint(a, b)\<close> raises \<^verbatim>\<open>ValueError\<close> on an empty range;
  \<^verbatim>\<open>random.choice\<close> raises \<^verbatim>\<open>IndexError\<close> on an empty sequence.
\<close>

type_synonym rng = "nat stream"

definition random_random :: "rng \<Rightarrow> rat \<times> rng" where
  "random_random g = (of_nat (shd g mod 2 ^ 53) / 2 ^ 53, stl g)"

definition randint :: "int \<Rightarrow> int \<Rightarrow> rng \<Rightarrow> error + int \<times> rng" where
  "randint a b g =
     (if b < a then Inl ValueError
      else Inr (a + int (shd g mod nat (b - a + 1)), stl g))"

definition choice :: "'a list \<Rightarrow> rng \<Rightarrow> error + 'a \<times> rng" where
  "choice xs g =
     (if xs = [] then Inl IndexError
      else Inr (xs ! (shd g mod length xs), stl g))"

text \<open>\<^verbatim>\<open>itertools.accumulate\<close>: the running totals.\<close>

fun accumulate_from :: "rat \<Rightarrow> rat list \<Rightarrow> rat list" where
  "accumulate_from t [] = []"
| "accumulate_from t (w # ws) = (t + w) # accumulate_from (t + w) ws"

definition accumulate :: "rat list \<Rightarrow> rat list" where
  "accumulate ws = accumulate_from 0 ws"

text \<open>\<^verbatim>\<open>bisect.bisect_right(a, x, lo, hi)\<close>.\<close>

function bisect_right :: "rat list \<Rightarrow> rat \<Rightarrow> nat \<Rightarrow> nat \<Rightarrow> nat" where
  "bisect_right a x lo hi =
     (if lo < hi then
        (let mid = (lo + hi) div 2
         in if x < a ! mid then bisect_right a x lo mid
            else bisect_right a x (mid + 1) hi)
      else lo)"
  by pat_completeness auto
termination
  by (relation "measure (\<lambda>(a, x, lo, hi). hi - lo)") auto

declare bisect_right.simps [simp del]

text \<open>
  \<^verbatim>\<open>random.choices(population, weights=weights, k=1)[0]\<close> (Python 3.9 and later, which
  the annotation \<^verbatim>\<open>list[int]\<close> of FamilyTree.py requires): the last running total is
  read first (\<^verbatim>\<open>IndexError\<close> on an empty list), a total that is not positive raises
  \<^verbatim>\<open>ValueError\<close>, and otherwise one uniform draw scaled by the total is located among
  the running totals.
\<close>

definition choices :: "'a list \<Rightarrow> rat list \<Rightarrow> rng \<Rightarrow> error + 'a \<times> rng" where
  "choices population weights g =
     (let n = length population; cum_weights = accumulate weights
      in if length cum_weights \<noteq> n then Inl ValueError
         else if cum_weights = [] then Inl IndexError
         else
           let total = last cum_weights
           in if total \<le> 0 then Inl ValueError
              else
                let (u, g') = random_random g
                in Inr (population ! bisect_right cum_weights (u * total) 0 (n - 1), g'))"

section \<open>Persons and the object store\<close>

text \<open>
  \<^verbatim>\<open>Person\<close> objects are mutable and shared (a child is referenced from both parents,
  spouses reference each other), so they live in a store: a list of objects, the address
  of an object being its index. References are addresses.
\<close>

record person =
  year_born :: int
  year_died :: int
  first_name :: string
  last_name :: string
  spouse :: "nat option"
  children :: "nat list"

definition new_person :: "person list \<Rightarrow> person \<Rightarrow> nat \<times> person list" where
  "new_person h p = (length h, h @ [p])"

definition set_spouse :: "person list \<Rightarrow> nat \<Rightarrow> nat \<Rightarrow> person list" where
  "set_spouse h a b = h[a := (h ! a)\<lparr>spouse := Some b\<rparr>]"

definition append_child :: "person list \<Rightarrow> nat \<Rightarrow> nat \<Rightarrow> person list" where
  "append_child h a c = h[a := (h ! a)\<lparr>children := children (h ! a) @ [c]\<rparr>]"

text \<open>
  The state of a tree under construction: the store, the registry (\<^verbatim>\<open>self.people\<close>,
  \<^verbatim>\<open>self._registry\<close>), the work queue (\<^verbatim>\<open>self.queue\<close>, \<^verbatim>\<open>frontier\<close>) and the state of
  the random generator.
\<close>

record tree_state =
  heap :: "person list"
  registry :: "nat list"
  queue :: "nat list"
  rand :: rng

section \<open>Birth-year distribution\<close>

text \<open>
  The expression \<^verbatim>\<open>round(start + i * interval)\<close> of both variants: \<^verbatim>\<open>i\<close> and \<^verbatim>\<open>start\<close>
  are integers and are converted to float, \<^verbatim>\<open>interval\<close> is a float.
\<close>

definition interpolate :: "int \<Rightarrow> rat \<Rightarrow> nat \<Rightarrow> error + int" where
  "interpolate start interval i =
     (case int_to_float (int i) of
        Inl e \<Rightarrow> Inl e
      | Inr fi \<Rightarrow>
     (case float_mul fi interval of
        Inl e \<Rightarrow> Inl e
      | Inr t \<Rightarrow>
     (case int_to_float start of
        Inl e \<Rightarrow> Inl e
      | Inr fs \<Rightarrow>
     (case float_add fs t of
        Inl e \<Rightarrow> Inl e
      | Inr x \<Rightarrow> Inr (py_round x)))))"

text \<open>\<^verbatim>\<open>FamilyTree.distribute_birth_years\<close> (FamilyTree.py).\<close>

definition distribute_birth_years :: "int \<Rightarrow> int \<Rightarrow> int \<Rightarrow> error + int list" where
  "distribute_birth_years start end_year num_children =
     (if num_children \<le> 0 then Inr []
      else if num_children = 1 then
        (case int_true_divide (start + end_year) 2 of
           Inl e \<Rightarrow> Inl e
         | Inr mid \<Rightarrow> Inr [py_round mid])
      else
        case int_true_divide (end_year - start) (num_children - 1) of
          Inl e \<Rightarrow> Inl e
        | Inr interval \<Rightarrow>
        (case comprehension (interpolate start interval) [0..<nat num_children] of
          Inl e \<Rightarrow> Inl e
        | Inr birth_years \<Rightarrow>
            Inr (map (\<lambda>year. min end_year (max start year)) birth_years)))"

text \<open>\<^verbatim>\<open>FamilyTree._spread_birth_years\<close> (family_tree_ai.py).\<close>

definition spread_birth_years :: "int \<Rightarrow> int \<Rightarrow> int \<Rightarrow> error + int list" where
  "spread_birth_years start end_year cnt =
     (if cnt \<le> 0 then Inr []
      else if cnt = 1 then
        (case int_true_divide (start + end_year) 2 of
           Inl e \<Rightarrow> Inl e
         | Inr mid \<Rightarrow> Inr [py_round mid])
      else
        case int_true_divide (end_year - start) (cnt - 1) of
          Inl e \<Rightarrow> Inl e
        | Inr step \<Rightarrow>
            comprehension
              (\<lambda>i. case interpolate start step i of
                      Inl e \<Rightarrow> Inl e
                    | Inr year \<Rightarrow> Inr (min end_year (max start year)))
              [0..<nat cnt])"

section \<open>PersonFactory.py\<close>

record person_factory =
  first_name_by_decade :: "string \<rightharpoonup> (string \<times> rat) list"
  last_name_by_decade :: "string \<rightharpoonup> (string \<times> rat) list"
  life_expectancy_by_decade :: "string \<rightharpoonup> rat"
  birth_rate_by_decade :: "string \<rightharpoonup> rat"
  marriage_rate_by_decade :: "string \<rightharpoonup> rat"

definition weighted_choice :: "(string \<times> rat) list \<Rightarrow> rng \<Rightarrow> error + string \<times> rng" where
  "weighted_choice cs g = choices (map fst cs) (map snd cs) g"

definition clamp_year_to_data :: "int \<Rightarrow> int" where
  "clamp_year_to_data year =
     (if year < 1950 then 1950 else if 2129 < year then 2129 else year)"

definition get_person :: "person_factory \<Rightarrow> int \<Rightarrow> rng \<Rightarrow> error + person \<times> rng" where
  "get_person F year g =
     (let year_born = clamp_year_to_data year;
          decade = decade_key year_born
      in case weighted_choice (defaultdict_get (first_name_by_decade F) decade) g of
           Inl e \<Rightarrow> Inl e
         | Inr (fname, g1) \<Rightarrow>
       (case weighted_choice (defaultdict_get (last_name_by_decade F) decade) g1 of
           Inl e \<Rightarrow> Inl e
         | Inr (lname, g2) \<Rightarrow>
       (case life_expectancy_by_decade F decade of
           None \<Rightarrow> Inl KeyError
         | Some life_exp \<Rightarrow>
       (case randint (- 10) 10 g2 of
           Inl e \<Rightarrow> Inl e
         | Inr (variation, g3) \<Rightarrow>
             Inr (\<lparr>year_born = year_born,
                   year_died = py_int (of_int year_born + life_exp + of_int variation),
                   first_name = fname, last_name = lname,
                   spouse = None, children = []\<rparr>, g3)))))"

section \<open>person_factory_ai.py\<close>

record person_factory_ai =
  first_names :: "(string \<times> string) \<rightharpoonup> (string \<times> rat) list"
  last_names :: "string \<rightharpoonup> (string \<times> rat) list"
  life_expectancy :: "string \<rightharpoonup> rat"
  birth_rates :: "string \<rightharpoonup> rat"
  marriage_rates :: "string \<rightharpoonup> rat"

definition weighted_pick :: "(string \<times> rat) list \<Rightarrow> rng \<Rightarrow> error + string \<times> rng" where
  "weighted_pick cs g =
     (if cs = [] then Inr (''Unknown'', g)
      else choices (map fst cs) (map snd cs) g)"

definition clamp_year :: "int \<Rightarrow> int" where
  "clamp_year year = max 1950 (min 2129 year)"

definition get_birth_rate :: "person_factory_ai \<Rightarrow> string \<Rightarrow> rat" where
  "get_birth_rate F decade = dict_get (birth_rates F) decade 2"

definition get_marriage_rate :: "person_factory_ai \<Rightarrow> string \<Rightarrow> rat" where
  "get_marriage_rate F decade = dict_get (marriage_rates F) decade (1 / 2)"

definition get_life_expectancy :: "person_factory_ai \<Rightarrow> string \<Rightarrow> rat" where
  "get_life_expectancy F decade = dict_get (life_expectancy F) decade 80"

definition get_person_ai ::
    "person_factory_ai \<Rightarrow> int \<Rightarrow> string option \<Rightarrow> rng \<Rightarrow> error + person \<times> rng" where
  "get_person_ai F year override_last_name g =
     (let year_born = clamp_year year;
          decade = decade_key year_born
      in case choice [''male'', ''female''] g of
           Inl e \<Rightarrow> Inl e
         | Inr (gender, g1) \<Rightarrow>
       (case weighted_pick (dict_get (first_names F) (decade, gender) [(''Unknown'', 1)]) g1 of
           Inl e \<Rightarrow> Inl e
         | Inr (fname, g2) \<Rightarrow>
       (case (case override_last_name of
                Some n \<Rightarrow> Inr (n, g2)
              | None \<Rightarrow> weighted_pick (dict_get (last_names F) decade [(''Unknown'', 1)]) g2) of
           Inl e \<Rightarrow> Inl e
         | Inr (lname, g3) \<Rightarrow>
       (let expectancy = dict_get (life_expectancy F) decade 80
        in case randint (- 10) 10 g3 of
             Inl e \<Rightarrow> Inl e
           | Inr (noise, g4) \<Rightarrow>
               Inr (\<lparr>year_born = year_born,
                     year_died = py_int (of_int year_born + expectancy + of_int noise),
                     first_name = fname, last_name = lname,
                     spouse = None, children = []\<rparr>, g4)))))"

section \<open>FamilyTree.py\<close>

text \<open>
  \<^verbatim>\<open>self.root_last_names\<close> is a set; \<^verbatim>\<open>list(...)\<close> lists it in an order Python does not
  fix. The draw from it is uniform, so either order gives the same outcomes.
\<close>

definition root_last_names :: "string list" where
  "root_last_names = [''Jones'', ''Smith'']"

definition determine_year_died :: "person_factory \<Rightarrow> int \<Rightarrow> rng \<Rightarrow> error + int \<times> rng" where
  "determine_year_died F year g =
     (let decade = decade_key year
      in case life_expectancy_by_decade F decade of
           None \<Rightarrow> Inl KeyError
         | Some life_exp \<Rightarrow>
       (case randint (- 10) 10 g of
           Inl e \<Rightarrow> Inl e
         | Inr (variation, g1) \<Rightarrow>
             Inr (py_int (of_int year + life_exp + of_int variation), g1)))"

definition init_roots :: "person_factory \<Rightarrow> rng \<Rightarrow> error + tree_state" where
  "init_roots F g =
     (case determine_year_died F 1950 g of
        Inl e \<Rightarrow> Inl e
      | Inr (died1, g1) \<Rightarrow>
     (case determine_year_died F 1950 g1 of
        Inl e \<Rightarrow> Inl e
      | Inr (died2, g2) \<Rightarrow>
          let root1 = \<lparr>year_born = 1950, year_died = died1, first_name = ''Desmond'',
                       last_name = ''Jones'', spouse = None, children = []\<rparr>;
              root2 = \<lparr>year_born = 1950, year_died = died2, first_name = ''Molly'',
                       last_name = ''Smith'', spouse = None, children = []\<rparr>;
              (a1, h1) = new_person [] root1;
              (a2, h2) = new_person h1 root2;
              h3 = set_spouse h2 a1 a2;
              h4 = set_spouse h3 a2 a1
          in Inr \<lparr>heap = h4, registry = [a1, a2], queue = [a1], rand = g2\<rparr>))"

text \<open>The marriage part of one iteration of \<^verbatim>\<open>generate_family_tree\<close>.\<close>

definition marriage_step ::
    "person_factory \<Rightarrow> nat \<Rightarrow> string \<Rightarrow> tree_state \<Rightarrow> error + tree_state" where
  "marriage_step F current_person decade st =
     (if spouse (heap st ! current_person) = None then
        (case marriage_rate_by_decade F decade of
           None \<Rightarrow> Inl KeyError
         | Some marriage_rate \<Rightarrow>
             let (u, g1) = random_random (rand st)
             in if u < marriage_rate then
                  (case randint (- 10) 10 g1 of
                     Inl e \<Rightarrow> Inl e
                   | Inr (d, g2) \<Rightarrow>
                  (case get_person F (year_born (heap st ! current_person) + d) g2 of
                     Inl e \<Rightarrow> Inl e
                   | Inr (sp, g3) \<Rightarrow>
                       let (a, h1) = new_person (heap st) sp;
                           h2 = set_spouse h1 current_person a;
                           h3 = set_spouse h2 a current_person
                       in Inr (st\<lparr>heap := h3, registry := registry st @ [a], rand := g3\<rparr>)))
                else Inr (st\<lparr>rand := g1\<rparr>))
      else Inr st)"

text \<open>The loop over \<^verbatim>\<open>child_years\<close>.\<close>

fun add_children ::
    "person_factory \<Rightarrow> nat \<Rightarrow> int list \<Rightarrow> tree_state \<Rightarrow> error + tree_state" where
  "add_children F current_person [] st = Inr st"
| "add_children F current_person (year # years) st =
     (if 2120 < year then add_children F current_person years st
      else
        case get_person F year (rand st) of
          Inl e \<Rightarrow> Inl e
        | Inr (child0, g1) \<Rightarrow>
        (case choice root_last_names g1 of
          Inl e \<Rightarrow> Inl e
        | Inr (lname, g2) \<Rightarrow>
            let child = child0\<lparr>last_name := lname\<rparr>;
                (c, h1) = new_person (heap st) child;
                h2 = append_child h1 current_person c;
                h3 = (case spouse (h2 ! current_person) of
                        None \<Rightarrow> h2
                      | Some s \<Rightarrow> append_child h2 s c)
            in add_children F current_person years
                 (st\<lparr>heap := h3, registry := registry st @ [c],
                     queue := queue st @ [c], rand := g2\<rparr>)))"

definition parent_year_born :: "person list \<Rightarrow> nat \<Rightarrow> int" where
  "parent_year_born h current_person =
     (case spouse (h ! current_person) of
        Some s \<Rightarrow> min (year_born (h ! current_person)) (year_born (h ! s))
      | None \<Rightarrow> year_born (h ! current_person))"

text \<open>The draw of \<^verbatim>\<open>num_children\<close> in one iteration of \<^verbatim>\<open>generate_family_tree\<close>.\<close>

definition draw_num_children :: "person_factory \<Rightarrow> string \<Rightarrow> rng \<Rightarrow> error + int \<times> rng" where
  "draw_num_children F decade g =
     (case birth_rate_by_decade F decade of
        None \<Rightarrow> Inl KeyError
      | Some birth_rate \<Rightarrow>
          let min_children = \<lceil>birth_rate - 3 / 2\<rceil>;
              max_children = \<lceil>birth_rate + 3 / 2\<rceil>
          in randint min_children max_children g)"

text \<open>One iteration of the loop of \<^verbatim>\<open>generate_family_tree\<close>, the queue not empty.\<close>

definition generate_step :: "person_factory \<Rightarrow> tree_state \<Rightarrow> error + tree_state" where
  "generate_step F st =
     (let current_person = hd (queue st);
          st0 = st\<lparr>queue := tl (queue st)\<rparr>;
          decade = decade_key (year_born (heap st0 ! current_person))
      in case marriage_step F current_person decade st0 of
           Inl e \<Rightarrow> Inl e
         | Inr st1 \<Rightarrow>
       (case draw_num_children F decade (rand st1) of
           Inl e \<Rightarrow> Inl e
         | Inr (num_children, g) \<Rightarrow>
             if num_children = 0 then Inr (st1\<lparr>rand := g\<rparr>)
             else
               let parent_year = parent_year_born (heap st1) current_person;
                   child_birth_start = parent_year + 25;
                   child_birth_end = parent_year + 45
               in case distribute_birth_years child_birth_start child_birth_end
                         num_children of
                    Inl e \<Rightarrow> Inl e
                  | Inr child_years \<Rightarrow>
                      add_children F current_person child_years (st1\<lparr>rand := g\<rparr>)))"

text \<open>
  The loop runs while no exception was raised and the queue is not empty. The value
  \<open>None\<close> of the loop stands for a run that never ends.
\<close>

definition pending :: "error + tree_state \<Rightarrow> bool" where
  "pending r = (case r of Inl e \<Rightarrow> False | Inr st \<Rightarrow> queue st \<noteq> [])"

definition generate_iteration ::
    "person_factory \<Rightarrow> error + tree_state \<Rightarrow> error + tree_state" where
  "generate_iteration F r = (case r of Inl e \<Rightarrow> Inl e | Inr st \<Rightarrow> generate_step F st)"

definition generate_family_tree ::
    "person_factory \<Rightarrow> error + tree_state \<Rightarrow> (error + tree_state) option" where
  "generate_family_tree F r = while_option pending (generate_iteration F) r"

text \<open>\<^verbatim>\<open>FamilyTree.__init__\<close> after the files are read.\<close>

definition family_tree :: "person_factory \<Rightarrow> rng \<Rightarrow> (error + tree_state) option" where
  "family_tree F g = generate_family_tree F (init_roots F g)"

text \<open>The state of the same run after at most \<open>k\<close> iterations of the loop.\<close>

definition family_tree_after :: "person_factory \<Rightarrow> rng \<Rightarrow> nat \<Rightarrow> error + tree_state" where
  "family_tree_after F g k =
     ((\<lambda>r. if pending r then generate_iteration F r else r) ^^ k) (init_roots F g)"

section \<open>family_tree_ai.py\<close>

definition FOUNDER_LAST_NAMES :: "string list" where
  "FOUNDER_LAST_NAMES = [''Jones'', ''Smith'']"

definition CUTOFF_YEAR :: int where
  "CUTOFF_YEAR = 2120"

definition create_founders :: "person_factory_ai \<Rightarrow> rng \<Rightarrow> error + tree_state" where
  "create_founders F g =
     (let decade = ''1950s'';
          expectancy = get_life_expectancy F decade
      in case randint (- 10) 10 g of
           Inl e \<Rightarrow> Inl e
         | Inr (n1, g1) \<Rightarrow>
       (case randint (- 10) 10 g1 of
           Inl e \<Rightarrow> Inl e
         | Inr (n2, g2) \<Rightarrow>
             let p1 = \<lparr>year_born = 1950, year_died = 1950 + py_int (expectancy + of_int n1),
                       first_name = ''Desmond'', last_name = ''Jones'',
                       spouse = None, children = []\<rparr>;
                 p2 = \<lparr>year_born = 1950, year_died = 1950 + py_int (expectancy + of_int n2),
                       first_name = ''Molly'', last_name = ''Smith'',
                       spouse = None, children = []\<rparr>;
                 (a1, h1) = new_person [] p1;
                 (a2, h2) = new_person h1 p2;
                 h3 = set_spouse h2 a1 a2;
                 h4 = set_spouse h3 a2 a1
             in Inr \<lparr>heap = h4, registry = [a1, a2], queue = [a1], rand = g2\<rparr>))"

definition marriage_step_ai ::
    "person_factory_ai \<Rightarrow> nat \<Rightarrow> string \<Rightarrow> tree_state \<Rightarrow> error + tree_state" where
  "marriage_step_ai F person decade st =
     (if spouse (heap st ! person) = None then
        (let marriage_rate = get_marriage_rate F decade;
             (u, g1) = random_random (rand st)
         in if u < marriage_rate then
              (case randint (- 10) 10 g1 of
                 Inl e \<Rightarrow> Inl e
               | Inr (d, g2) \<Rightarrow>
              (case get_person_ai F (year_born (heap st ! person) + d) None g2 of
                 Inl e \<Rightarrow> Inl e
               | Inr (sp, g3) \<Rightarrow>
                   let (a, h1) = new_person (heap st) sp;
                       h2 = set_spouse h1 person a;
                       h3 = set_spouse h2 a person
                   in Inr (st\<lparr>heap := h3, registry := registry st @ [a], rand := g3\<rparr>)))
            else Inr (st\<lparr>rand := g1\<rparr>))
      else Inr st)"

fun add_children_ai ::
    "person_factory_ai \<Rightarrow> nat \<Rightarrow> int list \<Rightarrow> tree_state \<Rightarrow> error + tree_state" where
  "add_children_ai F person [] st = Inr st"
| "add_children_ai F person (birth_year # birth_years) st =
     (if CUTOFF_YEAR < birth_year then add_children_ai F person birth_years st
      else
        case choice FOUNDER_LAST_NAMES (rand st) of
          Inl e \<Rightarrow> Inl e
        | Inr (lname, g1) \<Rightarrow>
        (case get_person_ai F birth_year (Some lname) g1 of
          Inl e \<Rightarrow> Inl e
        | Inr (child, g2) \<Rightarrow>
            let (c, h1) = new_person (heap st) child;
                h2 = append_child h1 person c;
                h3 = (case spouse (h2 ! person) of
                        None \<Rightarrow> h2
                      | Some s \<Rightarrow> append_child h2 s c)
            in add_children_ai F person birth_years
                 (st\<lparr>heap := h3, registry := registry st @ [c],
                     queue := queue st @ [c], rand := g2\<rparr>)))"

definition elder_year :: "person list \<Rightarrow> nat \<Rightarrow> int" where
  "elder_year h person =
     (case spouse (h ! person) of
        Some s \<Rightarrow> min (year_born (h ! person)) (year_born (h ! s))
      | None \<Rightarrow> year_born (h ! person))"

text \<open>The draw of \<^verbatim>\<open>num_children\<close> in one iteration of \<^verbatim>\<open>_expand_tree\<close>.\<close>

definition draw_num_children_ai ::
    "person_factory_ai \<Rightarrow> string \<Rightarrow> rng \<Rightarrow> error + int \<times> rng" where
  "draw_num_children_ai F decade g =
     (let birth_rate = get_birth_rate F decade;
          min_children = max 0 \<lceil>birth_rate - 3 / 2\<rceil>;
          max_children = \<lceil>birth_rate + 3 / 2\<rceil>
      in randint min_children max_children g)"

text \<open>One iteration of the loop of \<^verbatim>\<open>_expand_tree\<close>, the frontier not empty.\<close>

definition expand_step :: "person_factory_ai \<Rightarrow> tree_state \<Rightarrow> error + tree_state" where
  "expand_step F st =
     (let person = hd (queue st);
          st0 = st\<lparr>queue := tl (queue st)\<rparr>;
          decade = decade_key (year_born (heap st0 ! person))
      in case marriage_step_ai F person decade st0 of
           Inl e \<Rightarrow> Inl e
         | Inr st1 \<Rightarrow>
       (case draw_num_children_ai F decade (rand st1) of
           Inl e \<Rightarrow> Inl e
         | Inr (num_children, g) \<Rightarrow>
             if num_children = 0 then Inr (st1\<lparr>rand := g\<rparr>)
             else
               let elder = elder_year (heap st1) person;
                   start_year = elder + 25;
                   end_year = elder + 45
               in case spread_birth_years start_year end_year num_children of
                    Inl e \<Rightarrow> Inl e
                  | Inr birth_years \<Rightarrow>
                      add_children_ai F person birth_years (st1\<lparr>rand := g\<rparr>)))"

definition expand_iteration ::
    "person_factory_ai \<Rightarrow> error + tree_state \<Rightarrow> error + tree_state" where
  "expand_iteration F r = (case r of Inl e \<Rightarrow> Inl e | Inr st \<Rightarrow> expand_step F st)"

definition expand_tree ::
    "person_factory_ai \<Rightarrow> error + tree_state \<Rightarrow> (error + tree_state) option" where
  "expand_tree F r = while_option pending (expand_iteration F) r"

text \<open>\<^verbatim>\<open>FamilyTree.bootstrap\<close> after the files are read.\<close>

definition bootstrap :: "person_factory_ai \<Rightarrow> rng \<Rightarrow> (error + tree_state) option" where
  "bootstrap F g = expand_tree F (create_founders F g)"

text \<open>The state of the same run after at most \<open>k\<close> iterations of the loop.\<close>

definition bootstrap_after :: "person_factory_ai \<Rightarrow> rng \<Rightarrow> nat \<Rightarrow> error + tree_state" where
  "bootstrap_after F g k =
     ((\<lambda>r. if pending r then expand_iteration F r else r) ^^ k) (create_founders F g)"

section \<open>Properties of a store\<close>

text \<open>
  The spouse relation of a store is symmetric when every spouse reference points to an
  object of the store whose own spouse reference points back.
\<close>

definition spouse_symmetric :: "person list \<Rightarrow> bool" where
  "spouse_symmetric h =
     (\<forall>a < length h. \<forall>b. spouse (h ! a) = Some b \<longrightarrow> b < length h \<and> spouse (h ! b) = Some a)"

text \<open>Spouses are born at most ten years apart.\<close>

definition spouses_close :: "person list \<Rightarrow> bool" where
  "spouses_close h =
     (\<forall>a < length h. \<forall>b. spouse (h ! a) = Some b \<longrightarrow>
        year_born (h ! a) - 10 \<le> year_born (h ! b))"

text \<open>Every object is born within the range of the data.\<close>

definition years_in_data :: "person list \<Rightarrow> bool" where
  "years_in_data h = (\<forall>a < length h. 1950 \<le> year_born (h ! a) \<and> year_born (h ! a) \<le> 2129)"

text \<open>
  Every entry of a list of children is an object of the store, born from 1975 to the
  cutoff 2120, that carries one of the two founder surnames.
\<close>

definition children_ok :: "person list \<Rightarrow> bool" where
  "children_ok h =
     (\<forall>a < length h. \<forall>c \<in> set (children (h ! a)).
        c < length h \<and> 1975 \<le> year_born (h ! c) \<and> year_born (h ! c) \<le> 2120
        \<and> last_name (h ! c) \<in> {''Jones'', ''Smith''})"

definition heap_inv :: "person list \<Rightarrow> bool" where
  "heap_inv h = (spouse_symmetric h \<and> spouses_close h \<and> years_in_data h \<and> children_ok h)"

definition tree_inv :: "tree_state \<Rightarrow> bool" where
  "tree_inv st =
     (heap_inv (heap st)
      \<and> (\<forall>a \<in> set (registry st). a < length (heap st))
      \<and> (\<forall>a \<in> set (queue st). a < length (heap st)))"

text \<open>A later store keeps the objects of an earlier one, their birth years and last names.\<close>

definition heap_le :: "person list \<Rightarrow> person list \<Rightarrow> bool" where
  "heap_le h h' =
     (length h \<le> length h'
      \<and> (\<forall>a < length h. year_born (h' ! a) = year_born (h ! a)
                        \<and> last_name (h' ! a) = last_name (h ! a)))"

text \<open>
  The store after a child is materialized by \<^verbatim>\<open>generate_family_tree\<close> or
  \<^verbatim>\<open>_expand_tree\<close>: the child is allocated and appended to the children of the
  parent and of the parent's spouse.
\<close>

definition with_child :: "person list \<Rightarrow> nat \<Rightarrow> person \<Rightarrow> person list" where
  "with_child h cur child =
     (let h2 = append_child (h @ [child]) cur (length h)
      in case spouse (h2 ! cur) of None \<Rightarrow> h2 | Some s \<Rightarrow> append_child h2 s (length h))"

definition children_added :: "tree_state \<Rightarrow> int list \<Rightarrow> tree_state \<Rightarrow> bool" where
  "children_added st years st' =
     (tree_inv st' \<and> heap_le (heap st) (heap st')
      \<and> (\<exists>new. queue st' = queue st @ new \<and> registry st' = registry st @ new
            \<and> (\<forall>c \<in> set new. length (heap st) \<le> c \<and> c < length (heap st'))
            \<and> map (\<lambda>c. year_born (heap st' ! c)) new = filter (\<lambda>y. y \<le> 2120) years))"

definition stepped :: "tree_state \<Rightarrow> tree_state \<Rightarrow> bool" where
  "stepped st st' =
     (tree_inv st' \<and> heap_le (heap st) (heap st')
      \<and> (\<exists>new. queue st' = tl (queue st) @ new
            \<and> (\<forall>c \<in> set new. c < length (heap st')
                  \<and> year_born (heap st ! hd (queue st)) < year_born (heap st' ! c)
                  \<and> year_born (heap st' ! c) \<le> 2120)))"

definition result_inv :: "error + tree_state \<Rightarrow> bool" where
  "result_inv r = (case r of Inl e \<Rightarrow> True | Inr st \<Rightarrow> tree_inv st)"

definition queue_ranks :: "tree_state \<Rightarrow> nat multiset" where
  "queue_ranks st = mset (map (\<lambda>a. nat (2121 - year_born (heap st ! a))) (queue st))"

definition ranks :: "error + tree_state \<Rightarrow> nat multiset" where
  "ranks r = (case r of Inl e \<Rightarrow> {#} | Inr st \<Rightarrow> queue_ranks st)"

section \<open>Example data\<close>

text \<open>
  Demographic tables for \<^verbatim>\<open>person_factory_ai.py\<close> that hold a birth rate of 1.0 and the
  last name Garcia for every decade, and nothing else.
\<close>

definition example_factory_ai :: person_factory_ai where
  "example_factory_ai =
     \<lparr>first_names = Map.empty, last_names = (\<lambda>decade. Some [(''Garcia'', 1)]),
      life_expectancy = Map.empty, birth_rates = (\<lambda>decade. Some 1),
      marriage_rates = Map.empty\<rparr>"

text \<open>
  Raw draws under which the line of the founders reaches a child born in 2120, who marries
  a spouse five years younger.
\<close>

definition late_spouse_draws :: rng where
  "late_spouse_draws =
     [10, 10,
      2, 0, 0, 0, 10, 0, 0, 0, 10,
      4503599627370496, 0,
      4503599627370496, 2, 0, 0, 0, 10, 0, 0, 0, 10,
      4503599627370496, 0,
      4503599627370496, 2, 0, 0, 0, 10, 0, 0, 0, 10,
      4503599627370496, 0,
      4503599627370496, 1, 0, 0, 0, 10,
      0, 15, 0, 0, 0, 10, 0] @- sconst 0"

text \<open>
  Demographic tables for \<^verbatim>\<open>PersonFactory.py\<close> with one first name, one last name, a
  life expectancy of 80, a birth rate of 1.0 and a marriage rate of 1.0 for every decade.
\<close>

definition example_factory :: person_factory where
  "example_factory =
     \<lparr>first_name_by_decade = (\<lambda>decade. Some [(''Ann'', 1)]),
      last_name_by_decade = (\<lambda>decade. Some [(''Garcia'', 1)]),
      life_expectancy_by_decade = (\<lambda>decade. Some 80),
      birth_rate_by_decade = (\<lambda>decade. Some 1),
      marriage_rate_by_decade = (\<lambda>decade. Some 1)\<rparr>"

text \<open>Raw draws under which the founders have one child, who marries and has no child.\<close>

definition one_child_draws :: rng where
  "one_child_draws = [10, 10, 1, 0, 0, 10, 0, 0, 0, 0, 0, 10, 0] @- sconst 0"

text \<open>The same tables without any birth rate, and with a birth rate of 0.3.\<close>

definition no_birth_rate_factory :: person_factory where
  "no_birth_rate_factory = example_factory\<lparr>birth_rate_by_decade := Map.empty\<rparr>"

definition low_birth_rate_factory :: person_factory where
  "low_birth_rate_factory = example_factory\<lparr>birth_rate_by_decade := (\<lambda>decade. Some (3 / 10))\<rparr>"

text \<open>
  The states before and after the first iteration of the run of \<^verbatim>\<open>FamilyTree.py\<close> on the
  example data.
\<close>

definition one_child_initial :: tree_state where
  "one_child_initial =
     \<lparr>heap =
        [\<lparr>year_born = 1950, year_died = 2030, first_name = ''Desmond'', last_name = ''Jones'',
          spouse = Some 1, children = []\<rparr>,
         \<lparr>year_born = 1950, year_died = 2030, first_name = ''Molly'', last_name = ''Smith'',
          spouse = Some 0, children = []\<rparr>],
      registry = [0, 1], queue = [0],
      rand = [1, 0, 0, 10, 0, 0, 0, 0, 0, 10, 0] @- sconst 0\<rparr>"

definition one_child_second :: tree_state where
  "one_child_second =
     \<lparr>heap =
        [\<lparr>year_born = 1950, year_died = 2030, first_name = ''Desmond'', last_name = ''Jones'',
          spouse = Some 1, children = [2]\<rparr>,
         \<lparr>year_born = 1950, year_died = 2030, first_name = ''Molly'', last_name = ''Smith'',
          spouse = Some 0, children = [2]\<rparr>,
         \<lparr>year_born = 1985, year_died = 2065, first_name = ''Ann'', last_name = ''Jones'',
          spouse = None, children = []\<rparr>],
      registry = [0, 1, 2], queue = [2],
      rand = [0, 0, 0, 0, 10, 0] @- sconst 0\<rparr>"

section \<open>Properties of rounding and of the birth-year distribution\<close>

lemma py_round_of_int: "py_round (of_int k) = k"
  by (simp add: py_round_def)



lemma pow2_le_of_int: "(2::int) ^ k \<le> m \<Longrightarrow> (2::rat) ^ k \<le> of_int m"
  using of_int_le_iff [of "2 ^ k" m, where ?'a = rat] by simp

lemma of_int_le_pow2: "m \<le> (2::int) ^ k \<Longrightarrow> of_int m \<le> (2::rat) ^ k"
  using of_int_le_iff [of m "2 ^ k", where ?'a = rat] by simp

lemma float_exponent_bounds:
  assumes "x \<noteq> 0"
  shows "2 powi float_exponent x \<le> \<bar>x\<bar> \<and> \<bar>x\<bar> < 2 powi (float_exponent x + 1)"
proof (cases "1 \<le> \<bar>x\<bar>")
  case True
  define m where "m = \<lfloor>\<bar>x\<bar>\<rfloor>"
  have m: "0 < m" using True by (simp add: m_def)
  have e: "float_exponent x = bitlen m - 1"
    using True by (simp add: float_exponent_def m_def)
  have b1: "1 \<le> bitlen m" using m by (simp add: bitlen_alt_def)
  from bitlen_bounds [OF m] have lo: "2 ^ nat (bitlen m - 1) \<le> m" and hi: "m < 2 ^ nat (bitlen m)"
    by simp_all
  have "(2::rat) powi (bitlen m - 1) = 2 ^ nat (bitlen m - 1)"
    using b1 by (simp add: power_int_def)
  also have "\<dots> \<le> of_int m" using lo by (rule pow2_le_of_int)
  also have "\<dots> \<le> \<bar>x\<bar>" by (simp add: m_def)
  finally have A: "2 powi float_exponent x \<le> \<bar>x\<bar>" by (simp add: e)
  have "m + 1 \<le> 2 ^ nat (bitlen m)" using hi by simp
  then have "(of_int (m + 1) :: rat) \<le> 2 ^ nat (bitlen m)" by (rule of_int_le_pow2)
  moreover have "\<bar>x\<bar> < of_int (m + 1)" unfolding m_def by linarith
  ultimately have "\<bar>x\<bar> < 2 ^ nat (bitlen m)" by linarith
  moreover have "(2::rat) powi (bitlen m) = 2 ^ nat (bitlen m)"
    using b1 by (simp add: power_int_def)
  ultimately have "\<bar>x\<bar> < 2 powi (float_exponent x + 1)" by (simp add: e)
  with A show ?thesis by simp
next
  case False
  define y where "y = 1 / \<bar>x\<bar>"
  define c where "c = \<lceil>y\<rceil>"
  define m where "m = c - 1"
  have ax: "0 < \<bar>x\<bar>" "\<bar>x\<bar> < 1" using assms False by simp_all
  have y1: "1 < y" using ax by (simp add: y_def)
  have c2: "2 \<le> c" unfolding c_def using y1 by linarith
  have m: "0 < m" using c2 by (simp add: m_def)
  have e: "float_exponent x = - bitlen m"
    using False by (simp add: float_exponent_def m_def c_def y_def)
  have b1: "1 \<le> bitlen m" using m by (simp add: bitlen_alt_def)
  from bitlen_bounds [OF m] have lo: "2 ^ nat (bitlen m - 1) \<le> m" and hi: "m < 2 ^ nat (bitlen m)"
    by simp_all
  have ylo: "of_int m < y" unfolding m_def c_def by linarith
  have yhi: "y \<le> of_int c" unfolding c_def by linarith
  have "(2::rat) ^ nat (bitlen m - 1) \<le> of_int m" using lo by (rule pow2_le_of_int)
  with ylo have L: "(2::rat) ^ nat (bitlen m - 1) < y" by linarith
  have "c \<le> 2 ^ nat (bitlen m)" using hi by (simp add: m_def)
  then have "(of_int c :: rat) \<le> 2 ^ nat (bitlen m)" by (rule of_int_le_pow2)
  with yhi have U: "y \<le> (2::rat) ^ nat (bitlen m)" by linarith
  have xy: "\<bar>x\<bar> = 1 / y" using ax by (simp add: y_def)
  have p1: "(2::rat) powi (- bitlen m) = 1 / 2 ^ nat (bitlen m)"
    using b1 by (simp add: power_int_def field_simps)
  have p2: "(2::rat) powi (1 - bitlen m) = 1 / 2 ^ nat (bitlen m - 1)"
    using b1 by (simp add: power_int_def field_simps nat_diff_distrib)
  have y0: "0 < y" using y1 by simp
  have "1 / 2 ^ nat (bitlen m) \<le> 1 / y"
    using U y0 by (simp add: frac_le)
  moreover have "1 / y < 1 / 2 ^ nat (bitlen m - 1)"
    using L y0 by (simp add: frac_less2)
  ultimately show ?thesis by (simp add: e p1 p2 xy)
qed

lemma float_exponent_less:
  assumes "x \<noteq> 0" "\<bar>x\<bar> < 2 powi n"
  shows "float_exponent x < n"
proof (rule ccontr)
  assume "\<not> float_exponent x < n"
  then have "n \<le> float_exponent x" by simp
  then have "(2::rat) powi n \<le> 2 powi float_exponent x"
    by (simp add: power_int_increasing)
  with float_exponent_bounds [OF assms(1)] assms(2) show False by simp
qed

lemma round_to_double_exact:
  assumes "\<bar>m\<bar> < 2 ^ 53" "j \<le> 1074"
  shows "round_to_double (of_int m / 2 ^ j) = of_int m / 2 ^ j"
proof (cases "m = 0")
  case True
  then show ?thesis by (simp add: round_to_double_def)
next
  case False
  define x :: rat where "x = of_int m / 2 ^ j"
  define q where "q = max (float_exponent x) (- 1022) - 52"
  define k where "k = nat (- int j - q)"
  have x0: "x \<noteq> 0" using False by (simp add: x_def)
  have "(of_int \<bar>m\<bar> :: rat) < 2 ^ 53" using assms(1) of_int_less_iff [of "\<bar>m\<bar>" "2 ^ 53", where ?'a = rat] by simp
  then have "\<bar>x\<bar> < 2 ^ 53 / 2 ^ j" by (simp add: x_def divide_strict_right_mono)
  also have "(2::rat) ^ 53 / 2 ^ j = 2 powi (53 - int j)"
    by (simp add: power_int_diff)
  finally have "float_exponent x < 53 - int j" by (rule float_exponent_less [OF x0])
  then have q: "q \<le> - int j" using assms(2) by (simp add: q_def)
  then have kq: "int k = - int j - q" by (simp add: k_def)
  have "x / 2 powi q = of_int m * (2 powi (- int j) / 2 powi q)"
    by (simp add: x_def power_int_minus field_simps)
  also have "2 powi (- int j) / 2 powi q = (2::rat) powi (int k)"
    by (simp add: kq power_int_diff)
  also have "of_int m * (2::rat) powi (int k) = of_int (m * 2 ^ k)" by simp
  finally have "py_round (x / 2 powi q) = m * 2 ^ k" by (simp only: py_round_of_int)
  then have "round_to_double x = of_int (m * 2 ^ k) * 2 powi q"
    using x0 by (simp add: round_to_double_def q_def Let_def)
  also have "\<dots> = of_int m * ((2::rat) powi (int k) * 2 powi q)" by simp
  also have "(2::rat) powi (int k) * 2 powi q = 2 powi (- int j)"
    by (simp add: kq flip: power_int_add)
  also have "of_int m * (2::rat) powi (- int j) = x"
    by (simp add: x_def power_int_minus field_simps)
  finally show ?thesis by (simp add: x_def)
qed


lemma round_to_double_half:
  "\<bar>m\<bar> < 2 ^ 53 \<Longrightarrow> round_to_double (of_int m / 2) = of_int m / 2"
  using round_to_double_exact [of m 1] by simp


lemma as_double_bounded:
  assumes "\<bar>round_to_double x\<bar> < 9007199254740992"
  shows "as_double x = Inr (round_to_double x)"
proof (cases "round_to_double x = 0")
  case True
  then show ?thesis by (simp add: as_double_def)
next
  case False
  have "\<bar>round_to_double x\<bar> < 2 powi 53" using assms by simp
  from float_exponent_less [OF False this] show ?thesis by (simp add: as_double_def Let_def)
qed

lemma as_double_exact:
  assumes "round_to_double x = x" "\<bar>x\<bar> < 9007199254740992"
  shows "as_double x = Inr x"
  using as_double_bounded [of x] assms by simp


text \<open>A value that \<open>as_double\<close> returns is below \<open>2\<^sup>1\<^sup>0\<^sup>2\<^sup>4\<close> in magnitude.\<close>

lemma as_double_finite:
  assumes "as_double x = Inr r"
  shows "\<bar>r\<bar> < 2 powi 1024"
proof (cases "r = 0")
  case True
  then show ?thesis by simp
next
  case False
  from assms False have "float_exponent r \<le> 1023"
    by (auto simp: as_double_def Let_def split: if_splits)
  then have "(2::rat) powi (float_exponent r + 1) \<le> 2 powi 1024"
    by (intro power_int_increasing) simp_all
  with float_exponent_bounds [OF False] show ?thesis by linarith
qed

lemma as_double_error: "as_double x = Inl err \<Longrightarrow> err = OverflowError"
  by (auto simp: as_double_def Let_def split: if_splits)

lemma py_round_mono: "x \<le> y \<Longrightarrow> py_round x \<le> py_round y"
proof -
  assume xy: "x \<le> y"
  have fl: "\<lfloor>x\<rfloor> \<le> \<lfloor>y\<rfloor>" using xy by (rule floor_mono)
  show ?thesis
  proof (cases "\<lfloor>x\<rfloor> = \<lfloor>y\<rfloor>")
    case True
    then show ?thesis using xy unfolding py_round_def Let_def by auto
  next
    case False
    then have lt: "\<lfloor>x\<rfloor> + 1 \<le> \<lfloor>y\<rfloor>" using fl by simp
    have a: "py_round x \<le> \<lfloor>x\<rfloor> + 1" unfolding py_round_def Let_def by simp
    have b: "\<lfloor>y\<rfloor> \<le> py_round y" unfolding py_round_def Let_def by simp
    from a b lt show ?thesis by linarith
  qed
qed

lemma py_round_between:
  assumes "of_int a \<le> x" "x \<le> of_int b"
  shows "a \<le> py_round x \<and> py_round x \<le> b"
  using py_round_mono [OF assms(1)] py_round_mono [OF assms(2)] by (simp add: py_round_of_int)




lemma comprehension_error:
  "comprehension f xs = Inl err \<Longrightarrow> \<exists>x \<in> set xs. f x = Inl err"
  by (induction xs) (auto split: sum.splits)

lemma comprehension_bind:
  "comprehension (\<lambda>i. case f i of Inl e \<Rightarrow> Inl e | Inr y \<Rightarrow> Inr (g y)) xs
   = (case comprehension f xs of Inl e \<Rightarrow> Inl e | Inr ys \<Rightarrow> Inr (map g ys))"
  by (induction xs) (auto split: sum.splits)

lemma spread_birth_years_eq: "spread_birth_years s e n = distribute_birth_years s e n"
  by (simp add: spread_birth_years_def distribute_birth_years_def comprehension_bind
      split: sum.splits)


lemma distribute_birth_years_clamped:
  assumes "s \<le> e" "1 < n" "distribute_birth_years s e n = Inr ys" "y \<in> set ys"
  shows "s \<le> y \<and> y \<le> e"
  using assms by (auto simp: distribute_birth_years_def split: if_splits sum.splits)

lemma int_true_divide_error: "int_true_divide a b = Inl err \<Longrightarrow> b \<noteq> 0 \<Longrightarrow> err = OverflowError"
  by (auto simp: int_true_divide_def dest: as_double_error split: if_splits)

lemma interpolate_error: "interpolate s d i = Inl err \<Longrightarrow> err = OverflowError"
  by (auto simp: interpolate_def int_to_float_def float_mul_def float_add_def
      dest: as_double_error split: sum.splits)

lemma distribute_birth_years_error:
  assumes "distribute_birth_years s e n = Inl err"
  shows "err = OverflowError"
proof (cases "n = 1")
  case True
  with assms show ?thesis
    by (auto simp: distribute_birth_years_def dest: int_true_divide_error split: sum.splits)
next
  case False
  with assms have n: "1 < n" by (auto simp: distribute_birth_years_def split: if_splits)
  show ?thesis
  proof (cases "int_true_divide (e - s) (n - 1)")
    case (Inl err')
    with assms n have "err' = err" by (simp add: distribute_birth_years_def)
    with Inl n show ?thesis using int_true_divide_error [of "e - s" "n - 1" err] by simp
  next
    case (Inr d)
    with assms n have "comprehension (interpolate s d) [0..<nat n] = Inl err"
      by (simp add: distribute_birth_years_def split: sum.splits)
    from comprehension_error [OF this] show ?thesis using interpolate_error by blast
  qed
qed

lemma int_true_divide_two:
  assumes "\<bar>a\<bar> < 2 ^ 53"
  shows "int_true_divide a 2 = Inr (of_int a / 2)"
proof -
  have "(of_int \<bar>a\<bar> :: rat) < 9007199254740992"
    using assms of_int_less_iff [of "\<bar>a\<bar>" "9007199254740992", where ?'a = rat] by simp
  then have "\<bar>(of_int a / 2 :: rat)\<bar> < 9007199254740992" by simp
  from as_double_exact [OF round_to_double_half [OF assms] this]
  show ?thesis by (simp add: int_true_divide_def)
qed

lemma distribute_birth_years_one:
  "\<bar>s + e\<bar> < 2 ^ 53 \<Longrightarrow>
     distribute_birth_years s e 1 = Inr [py_round (of_int (s + e) / 2)]"
  by (simp add: distribute_birth_years_def int_true_divide_two)

lemma distribute_birth_years_range:
  assumes "s \<le> e" "\<bar>s + e\<bar> < 2 ^ 53" "distribute_birth_years s e n = Inr ys" "y \<in> set ys"
  shows "s \<le> y \<and> y \<le> e"
proof -
  consider "n \<le> 0" | "n = 1" | "1 < n" by linarith
  then show ?thesis
  proof cases
    case 1
    with assms(3) have "ys = []" by (simp add: distribute_birth_years_def)
    with assms(4) show ?thesis by simp
  next
    case 2
    from distribute_birth_years_one [OF assms(2)] assms(3) 2
    have "ys = [py_round (of_int (s + e) / 2)]" by simp
    with assms(4) have y: "y = py_round (of_int (s + e) / 2)" by simp
    have "of_int s \<le> (of_int (s + e) / 2 :: rat)" "(of_int (s + e) / 2 :: rat) \<le> of_int e"
      using assms(1) by simp_all
    from py_round_between [OF this] show ?thesis unfolding y .
  next
    case 3
    from distribute_birth_years_clamped [OF assms(1) 3 assms(3) assms(4)] show ?thesis .
  qed
qed







lemma spread_examples:
  "spread_birth_years 1975 1995 2 = Inr [1975, 1995]"
  "spread_birth_years 2020 2040 2 = Inr [2020, 2040]"
  "spread_birth_years 2065 2085 2 = Inr [2065, 2085]"
  "spread_birth_years 2110 2130 1 = Inr [2120]"
  "distribute_birth_years 1975 1995 1 = Inr [1985]"
  by code_simp+









section \<open>Store operations\<close>

lemma length_set_spouse [simp]: "length (set_spouse h a b) = length h"
  by (simp add: set_spouse_def)

lemma length_append_child [simp]: "length (append_child h a c) = length h"
  by (simp add: append_child_def)

lemma year_born_set_spouse [simp]: "year_born (set_spouse h a b ! x) = year_born (h ! x)"
  by (cases "a < length h") (simp_all add: set_spouse_def nth_list_update list_update_beyond)

lemma last_name_set_spouse [simp]: "last_name (set_spouse h a b ! x) = last_name (h ! x)"
  by (cases "a < length h") (simp_all add: set_spouse_def nth_list_update list_update_beyond)

lemma children_set_spouse [simp]: "children (set_spouse h a b ! x) = children (h ! x)"
  by (cases "a < length h") (simp_all add: set_spouse_def nth_list_update list_update_beyond)

lemma spouse_set_spouse:
  "spouse (set_spouse h a b ! x) = (if x = a \<and> a < length h then Some b else spouse (h ! x))"
  by (cases "a < length h") (simp_all add: set_spouse_def nth_list_update list_update_beyond)

lemma year_born_append_child [simp]: "year_born (append_child h a c ! x) = year_born (h ! x)"
  by (cases "a < length h") (simp_all add: append_child_def nth_list_update list_update_beyond)

lemma last_name_append_child [simp]: "last_name (append_child h a c ! x) = last_name (h ! x)"
  by (cases "a < length h") (simp_all add: append_child_def nth_list_update list_update_beyond)

lemma spouse_append_child [simp]: "spouse (append_child h a c ! x) = spouse (h ! x)"
  by (cases "a < length h") (simp_all add: append_child_def nth_list_update list_update_beyond)

lemma children_append_child:
  "children (append_child h a c ! x) =
     (if x = a \<and> a < length h then children (h ! x) @ [c] else children (h ! x))"
  by (cases "a < length h") (simp_all add: append_child_def nth_list_update list_update_beyond)

text \<open>The store after a marriage: the new spouse is allocated and the two are linked.\<close>

lemma spouse_marry:
  assumes "cur < length h"
  shows "spouse (set_spouse (set_spouse (h @ [sp]) cur (length h)) (length h) cur ! x) =
     (if x = length h then Some cur else if x = cur then Some (length h)
      else spouse ((h @ [sp]) ! x))"
  using assms by (simp add: spouse_set_spouse)

lemma spouse_symmetric_marry:
  assumes "spouse_symmetric h" "cur < length h" "spouse (h ! cur) = None" "spouse sp = None"
  shows "spouse_symmetric (set_spouse (set_spouse (h @ [sp]) cur (length h)) (length h) cur)"
  unfolding spouse_symmetric_def
proof (intro allI impI)
  fix a b
  assume a: "a < length (set_spouse (set_spouse (h @ [sp]) cur (length h)) (length h) cur)"
    and ab: "spouse (set_spouse (set_spouse (h @ [sp]) cur (length h)) (length h) cur ! a) = Some b"
  from a have a': "a < Suc (length h)" by simp
  have goal: "b < Suc (length h) \<and>
    spouse (set_spouse (set_spouse (h @ [sp]) cur (length h)) (length h) cur ! b) = Some a"
  proof (cases "a = length h")
    case True
    with ab assms(2) have "b = cur" by (simp add: spouse_marry)
    with True assms(2) show ?thesis by (simp add: spouse_marry)
  next
    case False
    note nl = this
    show ?thesis
    proof (cases "a = cur")
      case True
      with ab assms(2) nl have "b = length h" by (simp add: spouse_marry)
      with True assms(2) show ?thesis by (simp add: spouse_marry)
    next
      case False
      from nl a' have al: "a < length h" by simp
      with ab False nl assms(2) have old: "spouse (h ! a) = Some b"
        by (simp add: spouse_marry nth_append)
      with assms(1) al have b: "b < length h" "spouse (h ! b) = Some a"
        unfolding spouse_symmetric_def by blast+
      with assms(3) have "b \<noteq> cur" by auto
      with b assms(2) show ?thesis by (simp add: spouse_marry nth_append)
    qed
  qed
  then show "b < length (set_spouse (set_spouse (h @ [sp]) cur (length h)) (length h) cur) \<and>
    spouse (set_spouse (set_spouse (h @ [sp]) cur (length h)) (length h) cur ! b) = Some a"
    by simp
qed

lemma spouses_close_marry:
  assumes "spouses_close h" "cur < length h" "spouse (h ! cur) = None" "spouse sp = None"
    "year_born (h ! cur) - 10 \<le> year_born sp" "year_born sp \<le> year_born (h ! cur) + 10"
    and sym: "spouse_symmetric h"
  shows "spouses_close (set_spouse (set_spouse (h @ [sp]) cur (length h)) (length h) cur)"
  unfolding spouses_close_def
proof (intro allI impI)
  fix a b
  assume a: "a < length (set_spouse (set_spouse (h @ [sp]) cur (length h)) (length h) cur)"
    and ab: "spouse (set_spouse (set_spouse (h @ [sp]) cur (length h)) (length h) cur ! a) = Some b"
  from a have a': "a < Suc (length h)" by simp
  have "year_born ((h @ [sp]) ! a) - 10 \<le> year_born ((h @ [sp]) ! b)"
  proof (cases "a = length h")
    case True
    with ab assms(2) have "b = cur" by (simp add: spouse_marry)
    with True assms(2,6) show ?thesis by (simp add: nth_append)
  next
    case False
    note nl = this
    show ?thesis
    proof (cases "a = cur")
      case True
      with ab assms(2) nl have "b = length h" by (simp add: spouse_marry)
      with True assms(2,5) show ?thesis by (simp add: nth_append)
    next
      case False
      from nl a' have al: "a < length h" by simp
      with ab False nl assms(2) have old: "spouse (h ! a) = Some b"
        by (simp add: spouse_marry nth_append)
      with sym al have b: "b < length h"
        unfolding spouse_symmetric_def by blast
      from old assms(1) al have "year_born (h ! a) - 10 \<le> year_born (h ! b)"
        unfolding spouses_close_def by blast
      with b al show ?thesis by (simp add: nth_append)
    qed
  qed
  then show "year_born (set_spouse (set_spouse (h @ [sp]) cur (length h)) (length h) cur ! a) - 10
    \<le> year_born (set_spouse (set_spouse (h @ [sp]) cur (length h)) (length h) cur ! b)"
    by simp
qed

lemma years_in_data_marry:
  assumes "years_in_data h" "1950 \<le> year_born sp" "year_born sp \<le> 2129"
  shows "years_in_data (set_spouse (set_spouse (h @ [sp]) cur (length h)) (length h) cur)"
  using assms by (auto simp: years_in_data_def nth_append less_Suc_eq)


lemma children_ok_marry:
  assumes "children_ok h" "children sp = []"
  shows "children_ok (set_spouse (set_spouse (h @ [sp]) cur (length h)) (length h) cur)"
  unfolding children_ok_def
proof (intro allI impI ballI)
  let ?h = "set_spouse (set_spouse (h @ [sp]) cur (length h)) (length h) cur"
  fix a c assume a: "a < length ?h" and c: "c \<in> set (children (?h ! a))"
  from a c assms(2) have a': "a < length h" and c': "c \<in> set (children (h ! a))"
    by (auto simp: nth_append less_Suc_eq split: if_splits)
  with assms(1) have "c < length h \<and> 1975 \<le> year_born (h ! c) \<and> year_born (h ! c) \<le> 2120
        \<and> last_name (h ! c) \<in> {''Jones'', ''Smith''}"
    unfolding children_ok_def by blast
  then show "c < length ?h \<and> 1975 \<le> year_born (?h ! c) \<and> year_born (?h ! c) \<le> 2120
        \<and> last_name (?h ! c) \<in> {''Jones'', ''Smith''}"
    by (simp add: nth_append)
qed


lemma heap_inv_marry:
  assumes "heap_inv h" "cur < length h" "spouse (h ! cur) = None"
    "spouse sp = None" "children sp = []"
    "1950 \<le> year_born sp" "year_born sp \<le> 2129"
    "year_born (h ! cur) - 10 \<le> year_born sp" "year_born sp \<le> year_born (h ! cur) + 10"
  shows "heap_inv (set_spouse (set_spouse (h @ [sp]) cur (length h)) (length h) cur)"
  using assms unfolding heap_inv_def
  by (simp add: spouse_symmetric_marry spouses_close_marry years_in_data_marry children_ok_marry)




lemma heap_le_marry:
  "heap_le h (set_spouse (set_spouse (h @ [sp]) cur (length h)) (length h) cur)"
  by (simp add: heap_le_def nth_append)

text \<open>The store after a child is materialized.\<close>

lemma length_with_child [simp]: "length (with_child h cur child) = Suc (length h)"
  by (simp add: with_child_def Let_def split: option.splits)

lemma year_born_with_child [simp]:
  "year_born (with_child h cur child ! x) = year_born ((h @ [child]) ! x)"
  by (simp add: with_child_def Let_def split: option.splits)

lemma last_name_with_child [simp]:
  "last_name (with_child h cur child ! x) = last_name ((h @ [child]) ! x)"
  by (simp add: with_child_def Let_def split: option.splits)

lemma spouse_with_child [simp]:
  "spouse (with_child h cur child ! x) = spouse ((h @ [child]) ! x)"
  by (simp add: with_child_def Let_def split: option.splits)

lemma children_with_child_subset:
  "set (children (with_child h cur child ! x)) \<subseteq> set (children ((h @ [child]) ! x)) \<union> {length h}"
  by (auto simp: with_child_def Let_def children_append_child split: option.splits if_splits)

lemma heap_le_with_child: "heap_le h (with_child h cur child)"
  by (simp add: heap_le_def nth_append)

lemma heap_inv_with_child:
  assumes "heap_inv h" "spouse child = None" "children child = []"
    "1975 \<le> year_born child" "year_born child \<le> 2120"
    "last_name child \<in> {''Jones'', ''Smith''}"
  shows "heap_inv (with_child h cur child)"
proof -
  from assms(1) have sym: "spouse_symmetric h" and close: "spouses_close h"
    and yrs: "years_in_data h" and ch: "children_ok h"
    by (simp_all add: heap_inv_def)
  have old: "a < length h \<and> spouse (h ! a) = Some b"
    if "a < Suc (length h)" "spouse ((h @ [child]) ! a) = Some b" for a b
  proof (cases "a = length h")
    case True
    with that assms(2) show ?thesis by simp
  next
    case False
    with that show ?thesis by (simp add: nth_append)
  qed
  have 1: "spouse_symmetric (with_child h cur child)"
    unfolding spouse_symmetric_def
  proof (intro allI impI)
    fix a b
    assume "a < length (with_child h cur child)" "spouse (with_child h cur child ! a) = Some b"
    then have "a < length h \<and> spouse (h ! a) = Some b" using old by simp
    with sym have "b < length h" "spouse (h ! b) = Some a"
      unfolding spouse_symmetric_def by blast+
    then show "b < length (with_child h cur child) \<and> spouse (with_child h cur child ! b) = Some a"
      by (simp add: nth_append)
  qed
  have 2: "spouses_close (with_child h cur child)"
    unfolding spouses_close_def
  proof (intro allI impI)
    fix a b
    assume "a < length (with_child h cur child)" "spouse (with_child h cur child ! a) = Some b"
    then have a: "a < length h \<and> spouse (h ! a) = Some b" using old by simp
    with sym have "b < length h" unfolding spouse_symmetric_def by blast
    moreover from a close have "year_born (h ! a) - 10 \<le> year_born (h ! b)"
      unfolding spouses_close_def by blast
    ultimately show "year_born (with_child h cur child ! a) - 10
        \<le> year_born (with_child h cur child ! b)"
      using a by (simp add: nth_append)
  qed
  have 3: "years_in_data (with_child h cur child)"
    unfolding years_in_data_def
  proof (intro allI impI)
    fix a assume "a < length (with_child h cur child)"
    then have "a < length h \<or> a = length h" by auto
    then show "1950 \<le> year_born (with_child h cur child ! a)
        \<and> year_born (with_child h cur child ! a) \<le> 2129"
    proof
      assume "a < length h"
      with yrs show ?thesis unfolding years_in_data_def by (simp add: nth_append)
    next
      assume "a = length h"
      with assms(4,5) show ?thesis by simp
    qed
  qed
  have 4: "children_ok (with_child h cur child)"
    unfolding children_ok_def
  proof (intro allI impI ballI)
    fix a c
    assume a: "a < length (with_child h cur child)"
      and c: "c \<in> set (children (with_child h cur child ! a))"
    from c children_with_child_subset [of h cur child a]
    have "c = length h \<or> c \<in> set (children ((h @ [child]) ! a))" by auto
    then show "c < length (with_child h cur child)
        \<and> 1975 \<le> year_born (with_child h cur child ! c)
        \<and> year_born (with_child h cur child ! c) \<le> 2120
        \<and> last_name (with_child h cur child ! c) \<in> {''Jones'', ''Smith''}"
    proof
      assume "c = length h"
      with assms(4,5,6) show ?thesis by simp
    next
      assume c': "c \<in> set (children ((h @ [child]) ! a))"
      have "a \<noteq> length h" using c' assms(3) by auto
      with a have al: "a < length h" by simp
      with c' have "c \<in> set (children (h ! a))" by (simp add: nth_append)
      with ch al have "c < length h \<and> 1975 \<le> year_born (h ! c) \<and> year_born (h ! c) \<le> 2120
        \<and> last_name (h ! c) \<in> {''Jones'', ''Smith''}"
        unfolding children_ok_def by blast
      then show ?thesis by (simp add: nth_append)
    qed
  qed
  from 1 2 3 4 show ?thesis by (simp add: heap_inv_def)
qed

section \<open>Random draws\<close>

lemma randint_range:
  assumes "randint a b g = Inr (v, g')"
  shows "a \<le> v \<and> v \<le> b"
proof -
  from assms have ab: "a \<le> b" and v: "v = a + int (shd g mod nat (b - a + 1))"
    by (auto simp: randint_def split: if_splits)
  have "shd g mod nat (b - a + 1) < nat (b - a + 1)" using ab by simp
  then have "int (shd g mod nat (b - a + 1)) < b - a + 1" using ab by linarith
  with v show ?thesis by simp
qed

lemma randint_total: "a \<le> b \<Longrightarrow> \<exists>v. randint a b g = Inr (v, stl g)"
  by (simp add: randint_def)

lemma randint_not_KeyError: "randint a b g \<noteq> Inl KeyError"
  by (simp add: randint_def)

lemma choice_member: "choice xs g = Inr (x, g') \<Longrightarrow> x \<in> set xs"
  by (auto simp: choice_def split: if_splits)

lemma choice_not_KeyError: "choice xs g \<noteq> Inl KeyError"
  by (simp add: choice_def)

lemma choices_not_KeyError: "choices xs ws g \<noteq> Inl KeyError"
  by (simp add: choices_def Let_def split: prod.splits)

lemma weighted_pick_not_KeyError: "weighted_pick cs g \<noteq> Inl KeyError"
  by (simp add: weighted_pick_def choices_not_KeyError)

section \<open>Clamping\<close>

lemma clamp_year_to_data_range: "1950 \<le> clamp_year_to_data y \<and> clamp_year_to_data y \<le> 2129"
  by (simp add: clamp_year_to_data_def)

lemma clamp_year_to_data_id: "1950 \<le> y \<Longrightarrow> y \<le> 2129 \<Longrightarrow> clamp_year_to_data y = y"
  by (simp add: clamp_year_to_data_def)

lemma clamp_year_eq: "clamp_year y = clamp_year_to_data y"
  by (simp add: clamp_year_def clamp_year_to_data_def)

lemma clamp_year_to_data_near:
  assumes "1950 \<le> y" "y \<le> 2129" "- 10 \<le> d" "d \<le> 10"
  shows "y - 10 \<le> clamp_year_to_data (y + d) \<and> clamp_year_to_data (y + d) \<le> y + 10"
  using assms by (simp add: clamp_year_to_data_def)

section \<open>The persons the factories return\<close>

lemma get_person_fresh:
  assumes "get_person F y g = Inr (p, g')"
  shows "spouse p = None \<and> children p = [] \<and> year_born p = clamp_year_to_data y"
  using assms unfolding get_person_def Let_def
  by (auto split: sum.splits option.splits prod.splits)

lemma get_person_ai_fresh:
  assumes "get_person_ai F y ov g = Inr (p, g')"
  shows "spouse p = None \<and> children p = [] \<and> year_born p = clamp_year_to_data y
         \<and> (\<forall>n. ov = Some n \<longrightarrow> last_name p = n)"
  using assms unfolding get_person_ai_def Let_def
  by (auto simp: clamp_year_eq split: sum.splits option.splits prod.splits)

lemma get_person_ai_not_KeyError: "get_person_ai F y ov g \<noteq> Inl KeyError"
  unfolding get_person_ai_def Let_def
  by (auto simp: choice_not_KeyError weighted_pick_not_KeyError randint_not_KeyError
           split: sum.splits option.splits prod.splits)

section \<open>The marriage step\<close>

lemma heap_le_refl: "heap_le h h"
  by (simp add: heap_le_def)

lemma heap_le_trans: "heap_le h1 h2 \<Longrightarrow> heap_le h2 h3 \<Longrightarrow> heap_le h1 h3"
  by (auto simp: heap_le_def)

lemma tree_inv_marry:
  assumes inv: "tree_inv st" and cur: "cur < length (heap st)"
    and single: "spouse (heap st ! cur) = None"
    and sp: "spouse sp = None" "children sp = []"
      "year_born sp = clamp_year_to_data (year_born (heap st ! cur) + d)"
    and d: "- 10 \<le> d" "d \<le> 10"
  shows "tree_inv (st\<lparr>heap := set_spouse (set_spouse (heap st @ [sp]) cur (length (heap st)))
                              (length (heap st)) cur,
                     registry := registry st @ [length (heap st)], rand := g\<rparr>)"
proof -
  from inv have hi: "heap_inv (heap st)"
    and reg: "\<forall>a \<in> set (registry st). a < length (heap st)"
    and qu: "\<forall>a \<in> set (queue st). a < length (heap st)"
    by (simp_all add: tree_inv_def)
  from hi cur have yr: "1950 \<le> year_born (heap st ! cur)" "year_born (heap st ! cur) \<le> 2129"
    by (simp_all add: heap_inv_def years_in_data_def)
  from clamp_year_to_data_near [OF yr d] sp(3)
  have near: "year_born (heap st ! cur) - 10 \<le> year_born sp"
    "year_born sp \<le> year_born (heap st ! cur) + 10" by simp_all
  from clamp_year_to_data_range [of "year_born (heap st ! cur) + d"] sp(3)
  have rng: "1950 \<le> year_born sp" "year_born sp \<le> 2129" by simp_all
  have "heap_inv (set_spouse (set_spouse (heap st @ [sp]) cur (length (heap st)))
                              (length (heap st)) cur)"
    by (rule heap_inv_marry [OF hi cur single sp(1,2) rng near])
  moreover have "\<forall>a \<in> set (registry st @ [length (heap st)]). a < Suc (length (heap st))"
    using reg by (auto simp: less_Suc_eq)
  moreover have "\<forall>a \<in> set (queue st). a < Suc (length (heap st))"
    using qu by (auto simp: less_Suc_eq)
  ultimately show ?thesis by (simp add: tree_inv_def)
qed

lemma tree_inv_rand: "tree_inv (st\<lparr>rand := g\<rparr>) = tree_inv st"
  by (simp add: tree_inv_def)

lemma marriage_step_cases:
  assumes "marriage_step F cur decade st = Inr st'"
  shows "(st' = st \<and> spouse (heap st ! cur) \<noteq> None)
       \<or> (\<exists>g. st' = st\<lparr>rand := g\<rparr>)
       \<or> (\<exists>sp d g. spouse (heap st ! cur) = None
            \<and> spouse sp = None \<and> children sp = []
            \<and> year_born sp = clamp_year_to_data (year_born (heap st ! cur) + d)
            \<and> - 10 \<le> d \<and> d \<le> 10
            \<and> st' = st\<lparr>heap := set_spouse (set_spouse (heap st @ [sp]) cur (length (heap st)))
                                   (length (heap st)) cur,
                          registry := registry st @ [length (heap st)], rand := g\<rparr>)"
proof (cases "spouse (heap st ! cur) = None")
  case False
  with assms show ?thesis by (simp add: marriage_step_def)
next
  case True
  from assms True obtain rate where
    rate: "marriage_rate_by_decade F decade = Some rate"
    by (auto simp: marriage_step_def split: option.splits)
  obtain u g1 where u: "random_random (rand st) = (u, g1)" by (cases "random_random (rand st)")
  show ?thesis
  proof (cases "u < rate")
    case False
    with assms True rate u have "st' = st\<lparr>rand := g1\<rparr>"
      by (simp add: marriage_step_def)
    then show ?thesis by blast
  next
    case lt: True
    from assms True rate u lt obtain d g2 where d: "randint (- 10) 10 g1 = Inr (d, g2)"
      by (auto simp: marriage_step_def split: sum.splits)
    from assms True rate u lt d obtain sp g3 where
      sp: "get_person F (year_born (heap st ! cur) + d) g2 = Inr (sp, g3)"
      by (auto simp: marriage_step_def split: sum.splits)
    from assms True rate u lt d sp have
      "st' = st\<lparr>heap := set_spouse (set_spouse (heap st @ [sp]) cur (length (heap st)))
                                   (length (heap st)) cur,
                          registry := registry st @ [length (heap st)], rand := g3\<rparr>"
      by (simp add: marriage_step_def new_person_def)
    with get_person_fresh [OF sp] randint_range [OF d] True show ?thesis by blast
  qed
qed

lemma marriage_step_ai_cases:
  assumes "marriage_step_ai F cur decade st = Inr st'"
  shows "(st' = st \<and> spouse (heap st ! cur) \<noteq> None)
       \<or> (\<exists>g. st' = st\<lparr>rand := g\<rparr>)
       \<or> (\<exists>sp d g. spouse (heap st ! cur) = None
            \<and> spouse sp = None \<and> children sp = []
            \<and> year_born sp = clamp_year_to_data (year_born (heap st ! cur) + d)
            \<and> - 10 \<le> d \<and> d \<le> 10
            \<and> st' = st\<lparr>heap := set_spouse (set_spouse (heap st @ [sp]) cur (length (heap st)))
                                   (length (heap st)) cur,
                          registry := registry st @ [length (heap st)], rand := g\<rparr>)"
proof (cases "spouse (heap st ! cur) = None")
  case False
  with assms show ?thesis by (simp add: marriage_step_ai_def)
next
  case True
  obtain u g1 where u: "random_random (rand st) = (u, g1)" by (cases "random_random (rand st)")
  show ?thesis
  proof (cases "u < get_marriage_rate F decade")
    case False
    with assms True u have "st' = st\<lparr>rand := g1\<rparr>"
      by (simp add: marriage_step_ai_def)
    then show ?thesis by blast
  next
    case lt: True
    from assms True u lt obtain d g2 where d: "randint (- 10) 10 g1 = Inr (d, g2)"
      by (auto simp: marriage_step_ai_def split: sum.splits)
    from assms True u lt d obtain sp g3 where
      sp: "get_person_ai F (year_born (heap st ! cur) + d) None g2 = Inr (sp, g3)"
      by (auto simp: marriage_step_ai_def split: sum.splits)
    from assms True u lt d sp have
      "st' = st\<lparr>heap := set_spouse (set_spouse (heap st @ [sp]) cur (length (heap st)))
                                   (length (heap st)) cur,
                          registry := registry st @ [length (heap st)], rand := g3\<rparr>"
      by (simp add: marriage_step_ai_def new_person_def)
    with get_person_ai_fresh [OF sp] randint_range [OF d] True show ?thesis by blast
  qed
qed

text \<open>What both marriage steps preserve, from the three cases above.\<close>

lemma marriage_cases_inv:
  assumes inv: "tree_inv st" and cur: "cur < length (heap st)"
    and cases: "(st' = st \<and> spouse (heap st ! cur) \<noteq> None)
       \<or> (\<exists>g. st' = st\<lparr>rand := g\<rparr>)
       \<or> (\<exists>sp d g. spouse (heap st ! cur) = None
            \<and> spouse sp = None \<and> children sp = []
            \<and> year_born sp = clamp_year_to_data (year_born (heap st ! cur) + d)
            \<and> - 10 \<le> d \<and> d \<le> 10
            \<and> st' = st\<lparr>heap := set_spouse (set_spouse (heap st @ [sp]) cur (length (heap st)))
                                   (length (heap st)) cur,
                          registry := registry st @ [length (heap st)], rand := g\<rparr>)"
  shows "tree_inv st' \<and> heap_le (heap st) (heap st') \<and> queue st' = queue st"
  using cases
proof (elim disjE exE conjE)
  assume "st' = st"
  with inv show ?thesis by (simp add: heap_le_refl)
next
  fix g assume "st' = st\<lparr>rand := g\<rparr>"
  with inv show ?thesis by (simp add: heap_le_refl tree_inv_rand)
next
  fix sp d g
  assume a: "spouse (heap st ! cur) = None" "spouse sp = None" "children sp = []"
    "year_born sp = clamp_year_to_data (year_born (heap st ! cur) + d)" "- 10 \<le> d" "d \<le> 10"
    and st': "st' = st\<lparr>heap := set_spouse (set_spouse (heap st @ [sp]) cur (length (heap st)))
                                   (length (heap st)) cur,
                          registry := registry st @ [length (heap st)], rand := g\<rparr>"
  from tree_inv_marry [OF inv cur a, of g] st' have "tree_inv st'" by simp
  moreover from st' have "heap_le (heap st) (heap st')" by (simp add: heap_le_marry)
  moreover from st' have "queue st' = queue st" by simp
  ultimately show ?thesis by simp
qed

section \<open>Materializing children\<close>

lemma tree_inv_with_child:
  assumes inv: "tree_inv st"
    and child: "spouse child = None" "children child = []"
      "1975 \<le> year_born child" "year_born child \<le> 2120"
      "last_name child \<in> {''Jones'', ''Smith''}"
  shows "tree_inv (st\<lparr>heap := with_child (heap st) cur child,
                     registry := registry st @ [length (heap st)],
                     queue := queue st @ [length (heap st)], rand := g\<rparr>)"
proof -
  from inv have hi: "heap_inv (heap st)"
    and reg: "\<forall>a \<in> set (registry st). a < length (heap st)"
    and qu: "\<forall>a \<in> set (queue st). a < length (heap st)"
    by (simp_all add: tree_inv_def)
  have "heap_inv (with_child (heap st) cur child)"
    by (rule heap_inv_with_child [OF hi child])
  moreover have "\<forall>a \<in> set (registry st @ [length (heap st)]). a < Suc (length (heap st))"
    using reg by (auto simp: less_Suc_eq)
  moreover have "\<forall>a \<in> set (queue st @ [length (heap st)]). a < Suc (length (heap st))"
    using qu by (auto simp: less_Suc_eq)
  ultimately show ?thesis by (simp add: tree_inv_def)
qed

text \<open>One pass of the loop body of \<open>add_children\<close> for a year that is materialized.\<close>

lemma add_children_Cons:
  assumes "\<not> 2120 < y" "add_children F cur (y # ys) st = Inr st'"
  shows "\<exists>child g. spouse child = None \<and> children child = []
      \<and> year_born child = clamp_year_to_data y
      \<and> last_name child \<in> {''Jones'', ''Smith''}
      \<and> add_children F cur ys
           (st\<lparr>heap := with_child (heap st) cur child,
               registry := registry st @ [length (heap st)],
               queue := queue st @ [length (heap st)], rand := g\<rparr>) = Inr st'"
proof -
  from assms obtain child0 g1 where c0: "get_person F y (rand st) = Inr (child0, g1)"
    by (auto split: sum.splits)
  from assms c0 obtain lname g2 where ln: "choice root_last_names g1 = Inr (lname, g2)"
    by (auto split: sum.splits)
  let ?child = "child0\<lparr>last_name := lname\<rparr>"
  from assms c0 ln have
    "add_children F cur ys
           (st\<lparr>heap := with_child (heap st) cur ?child,
               registry := registry st @ [length (heap st)],
               queue := queue st @ [length (heap st)], rand := g2\<rparr>) = Inr st'"
    by (simp add: new_person_def with_child_def Let_def)
  moreover from choice_member [OF ln] have "last_name ?child \<in> {''Jones'', ''Smith''}"
    by (simp add: root_last_names_def)
  moreover from get_person_fresh [OF c0] have "spouse ?child = None" "children ?child = []"
    "year_born ?child = clamp_year_to_data y" by simp_all
  ultimately show ?thesis by blast
qed

lemma add_children_ai_Cons:
  assumes "\<not> 2120 < y" "add_children_ai F cur (y # ys) st = Inr st'"
  shows "\<exists>child g. spouse child = None \<and> children child = []
      \<and> year_born child = clamp_year_to_data y
      \<and> last_name child \<in> {''Jones'', ''Smith''}
      \<and> add_children_ai F cur ys
           (st\<lparr>heap := with_child (heap st) cur child,
               registry := registry st @ [length (heap st)],
               queue := queue st @ [length (heap st)], rand := g\<rparr>) = Inr st'"
proof -
  from assms obtain lname g1 where ln: "choice FOUNDER_LAST_NAMES (rand st) = Inr (lname, g1)"
    by (auto simp: CUTOFF_YEAR_def split: sum.splits)
  from assms ln obtain child g2 where c: "get_person_ai F y (Some lname) g1 = Inr (child, g2)"
    by (auto simp: CUTOFF_YEAR_def split: sum.splits)
  from assms c ln have
    "add_children_ai F cur ys
           (st\<lparr>heap := with_child (heap st) cur child,
               registry := registry st @ [length (heap st)],
               queue := queue st @ [length (heap st)], rand := g2\<rparr>) = Inr st'"
    by (simp add: new_person_def with_child_def Let_def CUTOFF_YEAR_def)
  moreover from choice_member [OF ln] get_person_ai_fresh [OF c]
  have "last_name child \<in> {''Jones'', ''Smith''}"
    by (simp add: FOUNDER_LAST_NAMES_def)
  moreover from get_person_ai_fresh [OF c] have "spouse child = None" "children child = []"
    "year_born child = clamp_year_to_data y" by simp_all
  ultimately show ?thesis by blast
qed

text \<open>
  What the loop over the birth years establishes, for any loop that skips the years after
  2120 and otherwise behaves as the two lemmas above say.
\<close>

lemma children_added_Nil: "tree_inv st \<Longrightarrow> children_added st [] st"
  by (simp add: children_added_def heap_le_refl)

lemma children_added_skip:
  "2120 < y \<Longrightarrow> children_added st ys st' \<Longrightarrow> children_added st (y # ys) st'"
  by (simp add: children_added_def)

lemma children_added_step:
  assumes y: "\<not> 2120 < y" "1975 \<le> y"
    and child: "year_born child = clamp_year_to_data y"
    and rest: "children_added
           (st\<lparr>heap := with_child (heap st) cur child,
               registry := registry st @ [length (heap st)],
               queue := queue st @ [length (heap st)], rand := g\<rparr>) ys st'"
  shows "children_added st (y # ys) st'"
proof -
  let ?n = "length (heap st)"
  from y child have yc: "year_born child = y" by (simp add: clamp_year_to_data_id)
  from rest have inv': "tree_inv st'"
    and le: "heap_le (with_child (heap st) cur child) (heap st')"
    by (simp_all add: children_added_def)
  from rest obtain new where
    qu: "queue st' = (queue st @ [?n]) @ new"
    and reg: "registry st' = (registry st @ [?n]) @ new"
    and new: "\<forall>c \<in> set new. Suc ?n \<le> c \<and> c < length (heap st')"
    and yrs: "map (\<lambda>c. year_born (heap st' ! c)) new = filter (\<lambda>y. y \<le> 2120) ys"
    unfolding children_added_def by auto
  have le0: "heap_le (heap st) (heap st')"
    by (rule heap_le_trans [OF heap_le_with_child le])
  from le have "year_born (heap st' ! ?n) = year_born (with_child (heap st) cur child ! ?n)"
    and nlt: "?n < length (heap st')"
    by (simp_all add: heap_le_def)
  with yc have yn: "year_born (heap st' ! ?n) = y" by simp
  have a: "queue st' = queue st @ (?n # new)" using qu by simp
  have b: "registry st' = registry st @ (?n # new)" using reg by simp
  have c: "\<forall>c \<in> set (?n # new). ?n \<le> c \<and> c < length (heap st')"
    using new nlt by auto
  have d: "map (\<lambda>c. year_born (heap st' ! c)) (?n # new) = filter (\<lambda>y. y \<le> 2120) (y # ys)"
    using yrs yn y by simp
  from inv' le0 a b c d show ?thesis
    unfolding children_added_def by blast
qed

lemma add_children_added:
  assumes "tree_inv st" "\<forall>y \<in> set years. 1975 \<le> y" "add_children F cur years st = Inr st'"
  shows "children_added st years st'"
  using assms
proof (induction years arbitrary: st)
  case Nil
  then show ?case by (simp add: children_added_Nil)
next
  case (Cons y ys)
  show ?case
  proof (cases "2120 < y")
    case True
    with Cons.prems have "add_children F cur ys st = Inr st'" by simp
    with Cons.IH [of st] Cons.prems True show ?thesis by (simp add: children_added_skip)
  next
    case False
    from add_children_Cons [OF False Cons.prems(3)] obtain child g where
      child: "spouse child = None" "children child = []"
        "year_born child = clamp_year_to_data y" "last_name child \<in> {''Jones'', ''Smith''}"
      and rest: "add_children F cur ys
           (st\<lparr>heap := with_child (heap st) cur child,
               registry := registry st @ [length (heap st)],
               queue := queue st @ [length (heap st)], rand := g\<rparr>) = Inr st'"
      by blast
    from Cons.prems(2) have y: "1975 \<le> y" by simp
    with False child(3) have yc: "1975 \<le> year_born child" "year_born child \<le> 2120"
      by (simp_all add: clamp_year_to_data_id)
    have "tree_inv (st\<lparr>heap := with_child (heap st) cur child,
               registry := registry st @ [length (heap st)],
               queue := queue st @ [length (heap st)], rand := g\<rparr>)"
      by (rule tree_inv_with_child [OF Cons.prems(1) child(1,2) yc child(4)])
    from Cons.IH [OF this _ rest] Cons.prems(2)
    have "children_added (st\<lparr>heap := with_child (heap st) cur child,
               registry := registry st @ [length (heap st)],
               queue := queue st @ [length (heap st)], rand := g\<rparr>) ys st'"
      by simp
    from children_added_step [OF False y child(3) this] show ?thesis .
  qed
qed

lemma add_children_ai_added:
  assumes "tree_inv st" "\<forall>y \<in> set years. 1975 \<le> y" "add_children_ai F cur years st = Inr st'"
  shows "children_added st years st'"
  using assms
proof (induction years arbitrary: st)
  case Nil
  then show ?case by (simp add: children_added_Nil)
next
  case (Cons y ys)
  show ?case
  proof (cases "2120 < y")
    case True
    with Cons.prems have "add_children_ai F cur ys st = Inr st'" by (simp add: CUTOFF_YEAR_def)
    with Cons.IH [of st] Cons.prems True show ?thesis by (simp add: children_added_skip)
  next
    case False
    from add_children_ai_Cons [OF False Cons.prems(3)] obtain child g where
      child: "spouse child = None" "children child = []"
        "year_born child = clamp_year_to_data y" "last_name child \<in> {''Jones'', ''Smith''}"
      and rest: "add_children_ai F cur ys
           (st\<lparr>heap := with_child (heap st) cur child,
               registry := registry st @ [length (heap st)],
               queue := queue st @ [length (heap st)], rand := g\<rparr>) = Inr st'"
      by blast
    from Cons.prems(2) have y: "1975 \<le> y" by simp
    with False child(3) have yc: "1975 \<le> year_born child" "year_born child \<le> 2120"
      by (simp_all add: clamp_year_to_data_id)
    have "tree_inv (st\<lparr>heap := with_child (heap st) cur child,
               registry := registry st @ [length (heap st)],
               queue := queue st @ [length (heap st)], rand := g\<rparr>)"
      by (rule tree_inv_with_child [OF Cons.prems(1) child(1,2) yc child(4)])
    from Cons.IH [OF this _ rest] Cons.prems(2)
    have "children_added (st\<lparr>heap := with_child (heap st) cur child,
               registry := registry st @ [length (heap st)],
               queue := queue st @ [length (heap st)], rand := g\<rparr>) ys st'"
      by simp
    from children_added_step [OF False y child(3) this] show ?thesis .
  qed
qed

section \<open>One iteration of the loop\<close>

lemma elder_year_eq: "elder_year h a = parent_year_born h a"
  by (simp add: elder_year_def parent_year_born_def)

lemma parent_year_born_bounds:
  assumes "tree_inv st" "cur < length (heap st)"
  shows "1950 \<le> parent_year_born (heap st) cur
       \<and> year_born (heap st ! cur) - 10 \<le> parent_year_born (heap st) cur
       \<and> parent_year_born (heap st) cur \<le> 2129"
proof (cases "spouse (heap st ! cur)")
  case None
  with assms show ?thesis
    by (simp add: parent_year_born_def tree_inv_def heap_inv_def years_in_data_def)
next
  case (Some s)
  from assms have sym: "spouse_symmetric (heap st)" and cl: "spouses_close (heap st)"
    and yrs: "years_in_data (heap st)"
    by (simp_all add: tree_inv_def heap_inv_def)
  from sym Some assms(2) have s: "s < length (heap st)"
    unfolding spouse_symmetric_def by blast
  from cl Some assms(2) have "year_born (heap st ! cur) - 10 \<le> year_born (heap st ! s)"
    unfolding spouses_close_def by blast
  moreover from yrs s assms(2) have "1950 \<le> year_born (heap st ! s)"
    "1950 \<le> year_born (heap st ! cur)" "year_born (heap st ! cur) \<le> 2129"
    unfolding years_in_data_def by blast+
  ultimately show ?thesis using Some by (simp add: parent_year_born_def)
qed

text \<open>
  The window of birth years of the children of a person of the store lies within the
  range where the midpoint is computed exactly, so the distributed years lie in it.
\<close>

lemma child_years_bounds:
  assumes "tree_inv st" "cur < length (heap st)"
    "distribute_birth_years (parent_year_born (heap st) cur + 25)
       (parent_year_born (heap st) cur + 45) n = Inr years"
    "y \<in> set years"
  shows "1975 \<le> y \<and> year_born (heap st ! cur) < y
       \<and> parent_year_born (heap st) cur + 25 \<le> y \<and> y \<le> parent_year_born (heap st) cur + 45"
proof -
  from parent_year_born_bounds [OF assms(1,2)]
  have b: "1950 \<le> parent_year_born (heap st) cur"
    "year_born (heap st ! cur) - 10 \<le> parent_year_born (heap st) cur"
    "parent_year_born (heap st) cur \<le> 2129" by simp_all
  have le: "parent_year_born (heap st) cur + 25 \<le> parent_year_born (heap st) cur + 45" by simp
  have "\<bar>parent_year_born (heap st) cur + 25 + (parent_year_born (heap st) cur + 45)\<bar> < 2 ^ 53"
    using b by simp
  from distribute_birth_years_range [OF le this assms(3,4)] b show ?thesis by simp
qed

lemma tree_inv_pop: "tree_inv st \<Longrightarrow> tree_inv (st\<lparr>queue := tl (queue st)\<rparr>)"
  by (cases "queue st") (auto simp: tree_inv_def)

lemma stepped_no_children:
  assumes "tree_inv st1" "heap_le (heap st) (heap st1)" "queue st1 = tl (queue st)"
  shows "stepped st (st1\<lparr>rand := g\<rparr>)"
  using assms by (simp add: stepped_def tree_inv_rand)

lemma stepped_children:
  assumes st1: "tree_inv st1" "heap_le (heap st) (heap st1)" "queue st1 = tl (queue st)"
    and cur: "hd (queue st) < length (heap st)"
    and added: "children_added (st1\<lparr>rand := g\<rparr>) years st'"
    and years: "\<forall>y \<in> set years. year_born (heap st1 ! hd (queue st)) < y"
  shows "stepped st st'"
proof -
  from added have inv': "tree_inv st'" and le: "heap_le (heap st1) (heap st')"
    by (simp_all add: children_added_def)
  from added st1(3) obtain new where
    qu: "queue st' = tl (queue st) @ new"
    and yrs: "map (\<lambda>c. year_born (heap st' ! c)) new = filter (\<lambda>y. y \<le> 2120) years"
    and new: "\<forall>c \<in> set new. c < length (heap st')"
    unfolding children_added_def by auto
  from st1(2) cur have same: "year_born (heap st1 ! hd (queue st)) = year_born (heap st ! hd (queue st))"
    by (simp add: heap_le_def)
  have "\<forall>c \<in> set new. year_born (heap st ! hd (queue st)) < year_born (heap st' ! c)
                  \<and> year_born (heap st' ! c) \<le> 2120"
  proof
    fix c assume "c \<in> set new"
    then have "year_born (heap st' ! c) \<in> set (map (\<lambda>c. year_born (heap st' ! c)) new)"
      by simp
    with yrs have "year_born (heap st' ! c) \<in> set (filter (\<lambda>y. y \<le> 2120) years)" by simp
    with years same show "year_born (heap st ! hd (queue st)) < year_born (heap st' ! c)
                  \<and> year_born (heap st' ! c) \<le> 2120" by auto
  qed
  with new qu inv' heap_le_trans [OF st1(2) le] show ?thesis
    unfolding stepped_def by blast
qed

text \<open>
  The parts of one iteration: the marriage step on the state without the dequeued person,
  the draw of the number of children, the distribution of the birth years and the loop over
  them. The second variant distributes the same years.
\<close>

lemma generate_step_cases:
  assumes "generate_step F st = Inr st'"
  shows "\<exists>st1 n g years.
      marriage_step F (hd (queue st)) (decade_key (year_born (heap st ! hd (queue st))))
        (st\<lparr>queue := tl (queue st)\<rparr>) = Inr st1
    \<and> draw_num_children F (decade_key (year_born (heap st ! hd (queue st)))) (rand st1)
        = Inr (n, g)
    \<and> (if n = 0 then years = []
        else distribute_birth_years (parent_year_born (heap st1) (hd (queue st)) + 25)
               (parent_year_born (heap st1) (hd (queue st)) + 45) n = Inr years)
    \<and> add_children F (hd (queue st)) years (st1\<lparr>rand := g\<rparr>) = Inr st'"
proof -
  let ?cur = "hd (queue st)"
  let ?st0 = "st\<lparr>queue := tl (queue st)\<rparr>"
  let ?decade = "decade_key (year_born (heap st ! ?cur))"
  from assms obtain st1 where m: "marriage_step F ?cur ?decade ?st0 = Inr st1"
    by (auto simp: generate_step_def Let_def split: sum.splits)
  from assms m obtain n g where d: "draw_num_children F ?decade (rand st1) = Inr (n, g)"
    by (auto simp: generate_step_def Let_def split: sum.splits)
  show ?thesis
  proof (cases "n = 0")
    case True
    with assms m d have "st' = st1\<lparr>rand := g\<rparr>" by (simp add: generate_step_def Let_def)
    then have "add_children F ?cur [] (st1\<lparr>rand := g\<rparr>) = Inr st'" by simp
    with m d True show ?thesis by force
  next
    case False
    from assms m d False obtain years where
      y: "distribute_birth_years (parent_year_born (heap st1) ?cur + 25)
            (parent_year_born (heap st1) ?cur + 45) n = Inr years"
      by (auto simp: generate_step_def Let_def split: sum.splits)
    with assms m d False have "add_children F ?cur years (st1\<lparr>rand := g\<rparr>) = Inr st'"
      by (simp add: generate_step_def Let_def)
    with m d False y show ?thesis by force
  qed
qed

lemma expand_step_cases:
  assumes "expand_step F st = Inr st'"
  shows "\<exists>st1 n g years.
      marriage_step_ai F (hd (queue st)) (decade_key (year_born (heap st ! hd (queue st))))
        (st\<lparr>queue := tl (queue st)\<rparr>) = Inr st1
    \<and> draw_num_children_ai F (decade_key (year_born (heap st ! hd (queue st)))) (rand st1)
        = Inr (n, g)
    \<and> (if n = 0 then years = []
        else spread_birth_years (elder_year (heap st1) (hd (queue st)) + 25)
               (elder_year (heap st1) (hd (queue st)) + 45) n = Inr years)
    \<and> add_children_ai F (hd (queue st)) years (st1\<lparr>rand := g\<rparr>) = Inr st'"
proof -
  let ?cur = "hd (queue st)"
  let ?st0 = "st\<lparr>queue := tl (queue st)\<rparr>"
  let ?decade = "decade_key (year_born (heap st ! ?cur))"
  from assms obtain st1 where m: "marriage_step_ai F ?cur ?decade ?st0 = Inr st1"
    by (auto simp: expand_step_def Let_def split: sum.splits)
  from assms m obtain n g where d: "draw_num_children_ai F ?decade (rand st1) = Inr (n, g)"
    by (auto simp: expand_step_def Let_def split: sum.splits)
  show ?thesis
  proof (cases "n = 0")
    case True
    with assms m d have "st' = st1\<lparr>rand := g\<rparr>" by (simp add: expand_step_def Let_def)
    then have "add_children_ai F ?cur [] (st1\<lparr>rand := g\<rparr>) = Inr st'" by simp
    with m d True show ?thesis by force
  next
    case False
    from assms m d False obtain years where
      y: "spread_birth_years (elder_year (heap st1) ?cur + 25)
            (elder_year (heap st1) ?cur + 45) n = Inr years"
      by (auto simp: expand_step_def Let_def split: sum.splits)
    with assms m d False have "add_children_ai F ?cur years (st1\<lparr>rand := g\<rparr>) = Inr st'"
      by (simp add: expand_step_def Let_def)
    with m d False y show ?thesis by force
  qed
qed

lemma generate_step_stepped:
  assumes inv: "tree_inv st" and q: "queue st \<noteq> []" and step: "generate_step F st = Inr st'"
  shows "stepped st st'"
proof -
  let ?cur = "hd (queue st)"
  let ?st0 = "st\<lparr>queue := tl (queue st)\<rparr>"
  let ?decade = "decade_key (year_born (heap st ! ?cur))"
  from inv q have cur: "?cur < length (heap st)" by (simp add: tree_inv_def)
  from generate_step_cases [OF step] obtain st1 n g years where
    m: "marriage_step F ?cur ?decade ?st0 = Inr st1"
    and y: "if n = 0 then years = []
        else distribute_birth_years (parent_year_born (heap st1) ?cur + 25)
               (parent_year_born (heap st1) ?cur + 45) n = Inr years"
    and a: "add_children F ?cur years (st1\<lparr>rand := g\<rparr>) = Inr st'"
    by blast
  from marriage_cases_inv [OF tree_inv_pop [OF inv] _ marriage_step_cases [OF m]] cur
  have st1: "tree_inv st1" "heap_le (heap st) (heap st1)" "queue st1 = tl (queue st)"
    by simp_all
  from st1(2) cur have cur1: "?cur < length (heap st1)" by (simp add: heap_le_def)
  have b: "\<forall>y \<in> set years. 1975 \<le> y \<and> year_born (heap st1 ! ?cur) < y"
  proof (cases "n = 0")
    case True
    with y show ?thesis by simp
  next
    case False
    with y child_years_bounds [OF st1(1) cur1] show ?thesis by auto
  qed
  have "children_added (st1\<lparr>rand := g\<rparr>) years st'"
    by (rule add_children_added [OF _ _ a]) (use st1(1) b in \<open>simp_all add: tree_inv_rand\<close>)
  from stepped_children [OF st1 cur this] b show ?thesis by blast
qed

lemma expand_step_stepped:
  assumes inv: "tree_inv st" and q: "queue st \<noteq> []" and step: "expand_step F st = Inr st'"
  shows "stepped st st'"
proof -
  let ?cur = "hd (queue st)"
  let ?st0 = "st\<lparr>queue := tl (queue st)\<rparr>"
  let ?decade = "decade_key (year_born (heap st ! ?cur))"
  from inv q have cur: "?cur < length (heap st)" by (simp add: tree_inv_def)
  from expand_step_cases [OF step] obtain st1 n g years where
    m: "marriage_step_ai F ?cur ?decade ?st0 = Inr st1"
    and y: "if n = 0 then years = []
        else spread_birth_years (elder_year (heap st1) ?cur + 25)
               (elder_year (heap st1) ?cur + 45) n = Inr years"
    and a: "add_children_ai F ?cur years (st1\<lparr>rand := g\<rparr>) = Inr st'"
    by blast
  from marriage_cases_inv [OF tree_inv_pop [OF inv] _ marriage_step_ai_cases [OF m]] cur
  have st1: "tree_inv st1" "heap_le (heap st) (heap st1)" "queue st1 = tl (queue st)"
    by simp_all
  from st1(2) cur have cur1: "?cur < length (heap st1)" by (simp add: heap_le_def)
  have b: "\<forall>y \<in> set years. 1975 \<le> y \<and> year_born (heap st1 ! ?cur) < y"
  proof (cases "n = 0")
    case True
    with y show ?thesis by simp
  next
    case False
    with y have "distribute_birth_years (parent_year_born (heap st1) ?cur + 25)
               (parent_year_born (heap st1) ?cur + 45) n = Inr years"
      by (simp add: elder_year_eq spread_birth_years_eq)
    with child_years_bounds [OF st1(1) cur1] show ?thesis by auto
  qed
  have "children_added (st1\<lparr>rand := g\<rparr>) years st'"
    by (rule add_children_ai_added [OF _ _ a]) (use st1(1) b in \<open>simp_all add: tree_inv_rand\<close>)
  from stepped_children [OF st1 cur this] b show ?thesis by blast
qed

section \<open>Runs\<close>

lemma founders_inv:
  assumes "p1 = \<lparr>year_born = 1950, year_died = d1, first_name = f1, last_name = l1,
                 spouse = None, children = []\<rparr>"
    "p2 = \<lparr>year_born = 1950, year_died = d2, first_name = f2, last_name = l2,
                 spouse = None, children = []\<rparr>"
  shows "tree_inv \<lparr>heap = set_spouse (set_spouse [p1, p2] 0 1) 1 0,
                   registry = [0, 1], queue = [0], rand = g\<rparr>"
proof -
  let ?h = "set_spouse (set_spouse [p1, p2] 0 1) 1 0"
  have sp: "spouse (?h ! 0) = Some 1" "spouse (?h ! 1) = Some 0"
    by (simp_all add: spouse_set_spouse)
  have len: "length ?h = 2" by simp
  have all2: "\<And>P. (\<forall>a < 2. P a) = (P (0::nat) \<and> P 1)"
    by (auto simp: less_Suc_eq numeral_2_eq_2)
  have "spouse_symmetric ?h"
    unfolding spouse_symmetric_def len all2 using sp by simp
  moreover have "spouses_close ?h"
    unfolding spouses_close_def len all2 using sp assms by simp
  moreover have "years_in_data ?h"
    unfolding years_in_data_def len all2 using assms by simp
  moreover have "children_ok ?h"
    unfolding children_ok_def len all2 using assms by simp
  ultimately show ?thesis by (simp add: tree_inv_def heap_inv_def)
qed

lemma init_roots_inv: "result_inv (init_roots F g)"
proof (cases "init_roots F g")
  case (Inl e)
  then show ?thesis by (simp add: result_inv_def)
next
  case (Inr st)
  then obtain d1 d2 g2 where
    "st = \<lparr>heap = set_spouse (set_spouse
              [\<lparr>year_born = 1950, year_died = d1, first_name = ''Desmond'',
                 last_name = ''Jones'', spouse = None, children = []\<rparr>,
               \<lparr>year_born = 1950, year_died = d2, first_name = ''Molly'',
                 last_name = ''Smith'', spouse = None, children = []\<rparr>] 0 1) 1 0,
           registry = [0, 1], queue = [0], rand = g2\<rparr>"
    by (auto simp: init_roots_def new_person_def Let_def split: sum.splits)
  with founders_inv [OF refl refl] Inr show ?thesis by (simp add: result_inv_def)
qed

lemma create_founders_inv: "result_inv (create_founders F g)"
proof (cases "create_founders F g")
  case (Inl e)
  then show ?thesis by (simp add: result_inv_def)
next
  case (Inr st)
  then obtain d1 d2 g2 where
    "st = \<lparr>heap = set_spouse (set_spouse
              [\<lparr>year_born = 1950, year_died = d1, first_name = ''Desmond'',
                 last_name = ''Jones'', spouse = None, children = []\<rparr>,
               \<lparr>year_born = 1950, year_died = d2, first_name = ''Molly'',
                 last_name = ''Smith'', spouse = None, children = []\<rparr>] 0 1) 1 0,
           registry = [0, 1], queue = [0], rand = g2\<rparr>"
    by (auto simp: create_founders_def new_person_def Let_def split: sum.splits)
  with founders_inv [OF refl refl] Inr show ?thesis by (simp add: result_inv_def)
qed

lemma generate_iteration_inv:
  assumes "result_inv r" "pending r"
  shows "result_inv (generate_iteration F r)"
proof (cases r)
  case (Inl e)
  with assms show ?thesis by (simp add: pending_def)
next
  case (Inr st)
  with assms have inv: "tree_inv st" and q: "queue st \<noteq> []"
    by (simp_all add: result_inv_def pending_def)
  show ?thesis
  proof (cases "generate_step F st")
    case (Inl e)
    with Inr show ?thesis by (simp add: generate_iteration_def result_inv_def)
  next
    case step: (Inr st')
    from generate_step_stepped [OF inv q step] Inr step show ?thesis
      by (simp add: generate_iteration_def result_inv_def stepped_def)
  qed
qed

lemma expand_iteration_inv:
  assumes "result_inv r" "pending r"
  shows "result_inv (expand_iteration F r)"
proof (cases r)
  case (Inl e)
  with assms show ?thesis by (simp add: pending_def)
next
  case (Inr st)
  with assms have inv: "tree_inv st" and q: "queue st \<noteq> []"
    by (simp_all add: result_inv_def pending_def)
  show ?thesis
  proof (cases "expand_step F st")
    case (Inl e)
    with Inr show ?thesis by (simp add: expand_iteration_def result_inv_def)
  next
    case step: (Inr st')
    from expand_step_stepped [OF inv q step] Inr step show ?thesis
      by (simp add: expand_iteration_def result_inv_def stepped_def)
  qed
qed

lemma family_tree_after_inv: "result_inv (family_tree_after F g k)"
proof (induction k)
  case 0
  show ?case by (simp add: family_tree_after_def init_roots_inv)
next
  case (Suc k)
  then show ?case
    by (simp add: family_tree_after_def generate_iteration_inv)
qed

lemma bootstrap_after_inv: "result_inv (bootstrap_after F g k)"
proof (induction k)
  case 0
  show ?case by (simp add: bootstrap_after_def create_founders_inv)
next
  case (Suc k)
  then show ?case
    by (simp add: bootstrap_after_def expand_iteration_inv)
qed

section \<open>Termination\<close>

lemma stepped_ranks:
  assumes inv: "tree_inv st" and q: "queue st \<noteq> []" and st: "stepped st st'"
  shows "(queue_ranks st', queue_ranks st) \<in> mult {(a, b). a < b}"
proof -
  from q obtain p rest where qu: "queue st = p # rest" by (cases "queue st") auto
  from st qu obtain new where
    qu': "queue st' = rest @ new"
    and new: "\<forall>c \<in> set new. year_born (heap st ! p) < year_born (heap st' ! c)
                  \<and> year_born (heap st' ! c) \<le> 2120"
    and le: "heap_le (heap st) (heap st')"
    unfolding stepped_def by auto
  let ?rk = "\<lambda>s a. nat (2121 - year_born (heap s ! a))"
  have eq: "map (?rk st') rest = map (?rk st) rest"
  proof (rule map_cong [OF refl])
    fix a assume "a \<in> set rest"
    with inv qu have "a < length (heap st)" by (simp add: tree_inv_def)
    with le show "?rk st' a = ?rk st a" by (simp add: heap_le_def)
  qed
  have "queue_ranks st' = mset (map (?rk st') rest) + mset (map (?rk st') new)"
    by (simp only: queue_ranks_def qu' map_append mset_append)
  then have a: "queue_ranks st' = mset (map (?rk st) rest) + mset (map (?rk st') new)"
    by (simp only: eq)
  have b: "queue_ranks st = mset (map (?rk st) rest) + {#?rk st p#}"
    by (simp add: queue_ranks_def qu)
  have c: "\<forall>k \<in> set_mset (mset (map (?rk st') new)).
             \<exists>j \<in> set_mset {#?rk st p#}. (k, j) \<in> {(a, b). a < b}"
    using new by auto
  have d: "{#?rk st p#} \<noteq> {#}" by simp
  show ?thesis unfolding a b by (rule one_step_implies_mult [OF d c])
qed

lemma empty_ranks:
  assumes "M \<noteq> {#}"
  shows "({#}, M) \<in> mult {(a, b). (a::nat) < b}"
  using one_step_implies_mult [of M "{#}" "{(a, b). a < b}" "{#}"] assms by simp

lemma wf_ranks: "wf (inv_image (mult {(a, b). (a::nat) < b}) ranks)"
  by (intro wf_inv_image wf_mult wf_less)

lemma generate_iteration_ranks:
  assumes "result_inv r \<and> pending r"
  shows "(generate_iteration F r, r) \<in> inv_image (mult {(a, b). a < b}) ranks"
proof (cases r)
  case (Inl e)
  with assms show ?thesis by (simp add: pending_def)
next
  case (Inr st)
  with assms have inv: "tree_inv st" and q: "queue st \<noteq> []"
    by (simp_all add: result_inv_def pending_def)
  from q have ne: "queue_ranks st \<noteq> {#}" by (simp add: queue_ranks_def)
  show ?thesis
  proof (cases "generate_step F st")
    case (Inl e)
    with Inr empty_ranks [OF ne] show ?thesis
      by (simp add: generate_iteration_def ranks_def)
  next
    case step: (Inr st')
    from stepped_ranks [OF inv q generate_step_stepped [OF inv q step]] Inr step
    show ?thesis by (simp add: generate_iteration_def ranks_def)
  qed
qed

lemma expand_iteration_ranks:
  assumes "result_inv r \<and> pending r"
  shows "(expand_iteration F r, r) \<in> inv_image (mult {(a, b). a < b}) ranks"
proof (cases r)
  case (Inl e)
  with assms show ?thesis by (simp add: pending_def)
next
  case (Inr st)
  with assms have inv: "tree_inv st" and q: "queue st \<noteq> []"
    by (simp_all add: result_inv_def pending_def)
  from q have ne: "queue_ranks st \<noteq> {#}" by (simp add: queue_ranks_def)
  show ?thesis
  proof (cases "expand_step F st")
    case (Inl e)
    with Inr empty_ranks [OF ne] show ?thesis
      by (simp add: expand_iteration_def ranks_def)
  next
    case step: (Inr st')
    from stepped_ranks [OF inv q expand_step_stepped [OF inv q step]] Inr step
    show ?thesis by (simp add: expand_iteration_def ranks_def)
  qed
qed

lemma generate_family_tree_terminates:
  assumes "result_inv r"
  shows "\<exists>t. generate_family_tree F r = Some t"
  unfolding generate_family_tree_def
  by (rule wf_rel_while_option_Some [OF wf_ranks, where P = result_inv])
     (use assms generate_iteration_ranks generate_iteration_inv in auto)

lemma expand_tree_terminates:
  assumes "result_inv r"
  shows "\<exists>t. expand_tree F r = Some t"
  unfolding expand_tree_def
  by (rule wf_rel_while_option_Some [OF wf_ranks, where P = result_inv])
     (use assms expand_iteration_ranks expand_iteration_inv in auto)

section \<open>Evaluation on the example data\<close>

lemma bisect_right_empty_range: "bisect_right a x lo lo = lo"
  by (simp add: bisect_right.simps)

lemma weighted_pick_single: "weighted_pick [(n, 1)] g = Inr (n, stl g)"
  by (simp add: weighted_pick_def choices_def accumulate_def random_random_def
      bisect_right_empty_range)

lemma weighted_choice_single: "weighted_choice [(n, 1)] g = Inr (n, stl g)"
  by (simp add: weighted_choice_def choices_def accumulate_def random_random_def
      bisect_right_empty_range)

lemma ceiling_examples:
  "\<lceil>(1 :: rat) - 3 / 2\<rceil> = 0" "\<lceil>(1 :: rat) + 3 / 2\<rceil> = 3"
  "\<lceil>(3 / 10 :: rat) - 3 / 2\<rceil> = - 1" "\<lceil>(3 / 10 :: rat) + 3 / 2\<rceil> = 2"
  by code_simp+


lemma draw_num_children_example:
  "draw_num_children example_factory decade g = Inr (int (shd g mod 4), stl g)"
  using ceiling_examples
  by (simp add: draw_num_children_def example_factory_def randint_def)

lemma get_person_ai_example:
  "1950 \<le> y \<Longrightarrow> y \<le> 2129 \<Longrightarrow>
   get_person_ai example_factory_ai y ov g =
     Inr (\<lparr>year_born = y,
           year_died = y + 70
             + int (shd (stl (stl (case ov of None \<Rightarrow> stl g | Some n \<Rightarrow> g))) mod 21),
           first_name = ''Unknown'',
           last_name = (case ov of None \<Rightarrow> ''Garcia'' | Some n \<Rightarrow> n),
           spouse = None, children = []\<rparr>,
          stl (stl (stl (case ov of None \<Rightarrow> stl g | Some n \<Rightarrow> g))))"
  by (cases ov)
     (simp_all add: get_person_ai_def clamp_year_def dict_get_def example_factory_ai_def
        choice_def weighted_pick_single randint_def py_int_def Let_def)

lemma get_person_example:
  "1950 \<le> y \<Longrightarrow> y \<le> 2129 \<Longrightarrow>
   get_person example_factory y g =
     Inr (\<lparr>year_born = y, year_died = y + 70 + int (shd (stl (stl g)) mod 21),
           first_name = ''Ann'', last_name = ''Garcia'',
           spouse = None, children = []\<rparr>,
          stl (stl (stl g)))"
  by (simp add: get_person_def clamp_year_to_data_def defaultdict_get_def example_factory_def
        weighted_choice_single randint_def py_int_def Let_def)


lemmas run_simps =
  family_tree_def generate_family_tree_def pending_def generate_iteration_def
  generate_step_def init_roots_def determine_year_died_def
  example_factory_def [THEN arg_cong [where f = life_expectancy_by_decade]]
  example_factory_def [THEN arg_cong [where f = marriage_rate_by_decade]]
  marriage_step_def random_random_def randint_def choice_def
  new_person_def set_spouse_def append_child_def parent_year_born_def
  root_last_names_def py_int_def
  draw_num_children_example get_person_example spread_examples Let_def


text \<open>The run of \<^verbatim>\<open>FamilyTree.py\<close> on the example data.\<close>

lemma one_child_run:
  "family_tree example_factory one_child_draws = Some (Inr
     \<lparr>heap =
        [\<lparr>year_born = 1950, year_died = 2030, first_name = ''Desmond'', last_name = ''Jones'',
          spouse = Some 1, children = [2]\<rparr>,
         \<lparr>year_born = 1950, year_died = 2030, first_name = ''Molly'', last_name = ''Smith'',
          spouse = Some 0, children = [2]\<rparr>,
         \<lparr>year_born = 1985, year_died = 2065, first_name = ''Ann'', last_name = ''Jones'',
          spouse = Some 3, children = []\<rparr>,
         \<lparr>year_born = 1975, year_died = 2055, first_name = ''Ann'', last_name = ''Garcia'',
          spouse = Some 2, children = []\<rparr>],
      registry = [0, 1, 2, 3], queue = [], rand = sconst 0\<rparr>)"
  by (simp add: run_simps one_child_draws_def while_option_unfold)

section \<open>What holds of every state of a run\<close>

lemma family_tree_inv:
  assumes "family_tree F g = Some r"
  shows "result_inv r"
  by (rule while_option_rule [where P = result_inv and b = pending
        and c = "generate_iteration F" and s = "init_roots F g"])
     (use assms in \<open>simp_all add: generate_iteration_inv init_roots_inv
        family_tree_def generate_family_tree_def\<close>)

lemma bootstrap_inv:
  assumes "bootstrap F g = Some r"
  shows "result_inv r"
  by (rule while_option_rule [where P = result_inv and b = pending
        and c = "expand_iteration F" and s = "create_founders F g"])
     (use assms in \<open>simp_all add: expand_iteration_inv create_founders_inv
        bootstrap_def expand_tree_def\<close>)

lemma run_state_inv:
  assumes "family_tree_after F g k = Inr st \<or> family_tree F g = Some (Inr st)
         \<or> bootstrap_after F' g' k' = Inr st \<or> bootstrap F' g' = Some (Inr st)"
  shows "tree_inv st"
  using assms family_tree_after_inv [of F g k] family_tree_inv [of F g "Inr st"]
    bootstrap_after_inv [of F' g' k'] bootstrap_inv [of F' g' "Inr st"]
  by (auto simp: result_inv_def)

lemma tree_inv_registry:
  assumes "tree_inv st" "a \<in> set (registry st)"
  shows "a < length (heap st)"
    and "1950 \<le> year_born (heap st ! a)" and "year_born (heap st ! a) \<le> 2129"
    and "\<forall>c \<in> set (children (heap st ! a)).
           c < length (heap st) \<and> 1975 \<le> year_born (heap st ! c)
           \<and> year_born (heap st ! c) \<le> 2120
           \<and> last_name (heap st ! c) \<in> {''Jones'', ''Smith''}"
    and "\<forall>b. spouse (heap st ! a) = Some b \<longrightarrow>
           b < length (heap st) \<and> spouse (heap st ! b) = Some a
           \<and> year_born (heap st ! b) \<le> year_born (heap st ! a) + 10"
proof -
  from assms show a: "a < length (heap st)" by (simp add: tree_inv_def)
  from assms(1) have sym: "spouse_symmetric (heap st)" and cl: "spouses_close (heap st)"
    and yrs: "years_in_data (heap st)" and ch: "children_ok (heap st)"
    by (simp_all add: tree_inv_def heap_inv_def)
  from yrs a show "1950 \<le> year_born (heap st ! a)" "year_born (heap st ! a) \<le> 2129"
    unfolding years_in_data_def by blast+
  from ch a show "\<forall>c \<in> set (children (heap st ! a)).
           c < length (heap st) \<and> 1975 \<le> year_born (heap st ! c)
           \<and> year_born (heap st ! c) \<le> 2120
           \<and> last_name (heap st ! c) \<in> {''Jones'', ''Smith''}"
    unfolding children_ok_def by blast
  show "\<forall>b. spouse (heap st ! a) = Some b \<longrightarrow>
           b < length (heap st) \<and> spouse (heap st ! b) = Some a
           \<and> year_born (heap st ! b) \<le> year_born (heap st ! a) + 10"
  proof (intro allI impI)
    fix b assume ab: "spouse (heap st ! a) = Some b"
    with sym a have b: "b < length (heap st)" "spouse (heap st ! b) = Some a"
      unfolding spouse_symmetric_def by blast+
    with cl have "year_born (heap st ! b) - 10 \<le> year_born (heap st ! a)"
      unfolding spouses_close_def by blast
    with b show "b < length (heap st) \<and> spouse (heap st ! b) = Some a
           \<and> year_born (heap st ! b) \<le> year_born (heap st ! a) + 10" by simp
  qed
qed







section \<open>Symmetry of the spouse relation\<close>

lemma spouse_symmetric_with_child:
  assumes "spouse_symmetric h" "spouse child = None"
  shows "spouse_symmetric (with_child h cur child)"
  unfolding spouse_symmetric_def
proof (intro allI impI)
  fix a b
  assume a: "a < length (with_child h cur child)"
    and ab: "spouse (with_child h cur child ! a) = Some b"
  have "a \<noteq> length h" using ab assms(2) by auto
  with a have al: "a < length h" by simp
  with ab have "spouse (h ! a) = Some b" by (simp add: nth_append)
  with assms(1) al have "b < length h" "spouse (h ! b) = Some a"
    unfolding spouse_symmetric_def by blast+
  then show "b < length (with_child h cur child) \<and> spouse (with_child h cur child ! b) = Some a"
    by (simp add: nth_append)
qed

lemma marriage_cases_symmetric:
  assumes sym: "spouse_symmetric (heap st)" and cur: "cur < length (heap st)"
    and cases: "(st' = st \<and> spouse (heap st ! cur) \<noteq> None)
       \<or> (\<exists>g. st' = st\<lparr>rand := g\<rparr>)
       \<or> (\<exists>sp d g. spouse (heap st ! cur) = None
            \<and> spouse sp = None \<and> children sp = []
            \<and> year_born sp = clamp_year_to_data (year_born (heap st ! cur) + d)
            \<and> - 10 \<le> d \<and> d \<le> 10
            \<and> st' = st\<lparr>heap := set_spouse (set_spouse (heap st @ [sp]) cur (length (heap st)))
                                   (length (heap st)) cur,
                          registry := registry st @ [length (heap st)], rand := g\<rparr>)"
  shows "spouse_symmetric (heap st')"
  using cases
proof (elim disjE exE conjE)
  assume "st' = st"
  with sym show ?thesis by simp
next
  fix g assume "st' = st\<lparr>rand := g\<rparr>"
  with sym show ?thesis by simp
next
  fix sp d g
  assume a: "spouse (heap st ! cur) = None" "spouse sp = None"
    and st': "st' = st\<lparr>heap := set_spouse (set_spouse (heap st @ [sp]) cur (length (heap st)))
                                   (length (heap st)) cur,
                          registry := registry st @ [length (heap st)], rand := g\<rparr>"
  from spouse_symmetric_marry [OF sym cur a] st' show ?thesis by simp
qed

lemma add_children_symmetric:
  assumes "spouse_symmetric (heap st)" "add_children F cur years st = Inr st'"
  shows "spouse_symmetric (heap st')"
  using assms
proof (induction years arbitrary: st)
  case Nil
  then show ?case by simp
next
  case (Cons y ys)
  show ?case
  proof (cases "2120 < y")
    case True
    with Cons show ?thesis by simp
  next
    case False
    from add_children_Cons [OF False Cons.prems(2)] obtain child g where
      child: "spouse child = None"
      and rest: "add_children F cur ys
           (st\<lparr>heap := with_child (heap st) cur child,
               registry := registry st @ [length (heap st)],
               queue := queue st @ [length (heap st)], rand := g\<rparr>) = Inr st'"
      by blast
    from spouse_symmetric_with_child [OF Cons.prems(1) child] Cons.IH [OF _ rest]
    show ?thesis by simp
  qed
qed

lemma add_children_ai_symmetric:
  assumes "spouse_symmetric (heap st)" "add_children_ai F cur years st = Inr st'"
  shows "spouse_symmetric (heap st')"
  using assms
proof (induction years arbitrary: st)
  case Nil
  then show ?case by simp
next
  case (Cons y ys)
  show ?case
  proof (cases "2120 < y")
    case True
    with Cons show ?thesis by (simp add: CUTOFF_YEAR_def)
  next
    case False
    from add_children_ai_Cons [OF False Cons.prems(2)] obtain child g where
      child: "spouse child = None"
      and rest: "add_children_ai F cur ys
           (st\<lparr>heap := with_child (heap st) cur child,
               registry := registry st @ [length (heap st)],
               queue := queue st @ [length (heap st)], rand := g\<rparr>) = Inr st'"
      by blast
    from spouse_symmetric_with_child [OF Cons.prems(1) child] Cons.IH [OF _ rest]
    show ?thesis by simp
  qed
qed

lemma founders_symmetric:
  assumes "init_roots F g = Inr st \<or> create_founders F' g' = Inr st"
  shows "spouse_symmetric (heap st)"
  using assms init_roots_inv [of F g] create_founders_inv [of F' g']
  by (auto simp: result_inv_def tree_inv_def heap_inv_def)

text \<open>
  Claim C9. The spouse relation is symmetric: in the state before every iteration of the
  loop and in the final state, the spouse of a person of the registry is an object of the
  store whose spouse is that person. The founder initialization establishes a symmetric
  store, and the marriage step and the materialization of children each turn a symmetric
  store into a symmetric store.
\<close>

theorem spouse_relation_symmetric:
  "((family_tree_after F g k = Inr st \<or> family_tree F g = Some (Inr st)
      \<or> bootstrap_after F' g' k = Inr st \<or> bootstrap F' g' = Some (Inr st)) \<longrightarrow>
      (\<forall>a \<in> set (registry st). \<forall>b. spouse (heap st ! a) = Some b \<longrightarrow>
         b < length (heap st) \<and> spouse (heap st ! b) = Some a))
   \<and> ((init_roots F g = Inr st0 \<or> create_founders F' g' = Inr st0) \<longrightarrow>
        spouse_symmetric (heap st0))
   \<and> (spouse_symmetric (heap st1) \<and> cur < length (heap st1)
        \<and> (marriage_step F cur decade st1 = Inr st2
             \<or> marriage_step_ai F' cur decade st1 = Inr st2) \<longrightarrow>
        spouse_symmetric (heap st2))
   \<and> (spouse_symmetric (heap st1)
        \<and> (add_children F cur years st1 = Inr st3
             \<or> add_children_ai F' cur years st1 = Inr st3) \<longrightarrow>
        spouse_symmetric (heap st3))"
proof (intro conjI impI ballI allI)
  fix a b
  assume run: "family_tree_after F g k = Inr st \<or> family_tree F g = Some (Inr st)
      \<or> bootstrap_after F' g' k = Inr st \<or> bootstrap F' g' = Some (Inr st)"
    and a: "a \<in> set (registry st)" and ab: "spouse (heap st ! a) = Some b"
  from tree_inv_registry(5) [OF run_state_inv [OF run] a] ab
  show "b < length (heap st)" "spouse (heap st ! b) = Some a" by simp_all
next
  assume "init_roots F g = Inr st0 \<or> create_founders F' g' = Inr st0"
  then show "spouse_symmetric (heap st0)" by (rule founders_symmetric)
next
  assume "spouse_symmetric (heap st1) \<and> cur < length (heap st1)
        \<and> (marriage_step F cur decade st1 = Inr st2
             \<or> marriage_step_ai F' cur decade st1 = Inr st2)"
  then show "spouse_symmetric (heap st2)"
    using marriage_cases_symmetric [of st1 cur st2]
      marriage_step_cases [of F cur decade st1 st2]
      marriage_step_ai_cases [of F' cur decade st1 st2]
    by blast
next
  assume "spouse_symmetric (heap st1)
        \<and> (add_children F cur years st1 = Inr st3
             \<or> add_children_ai F' cur years st1 = Inr st3)"
  then show "spouse_symmetric (heap st3)"
    using add_children_symmetric add_children_ai_symmetric by blast
qed

section \<open>Termination\<close>

lemma family_tree_terminates:
  "\<exists>r. family_tree F g = Some r \<and> (\<forall>st. r = Inr st \<longrightarrow> queue st = [])"
proof -
  from generate_family_tree_terminates [OF init_roots_inv, of F F g]
  obtain r where r: "family_tree F g = Some r" by (auto simp: family_tree_def)
  then have "\<not> pending r"
    unfolding family_tree_def generate_family_tree_def by (rule while_option_stop)
  then have "\<forall>st. r = Inr st \<longrightarrow> queue st = []" by (auto simp: pending_def)
  with r show ?thesis by blast
qed

lemma bootstrap_terminates:
  "\<exists>r. bootstrap F g = Some r \<and> (\<forall>st. r = Inr st \<longrightarrow> queue st = [])"
proof -
  from expand_tree_terminates [OF create_founders_inv, of F F g]
  obtain r where r: "bootstrap F g = Some r" by (auto simp: bootstrap_def)
  then have "\<not> pending r"
    unfolding bootstrap_def expand_tree_def by (rule while_option_stop)
  then have "\<forall>st. r = Inr st \<longrightarrow> queue st = []" by (auto simp: pending_def)
  with r show ?thesis by blast
qed

text \<open>
  Claim C7. Tree generation terminates: for every table and every sequence of draws the
  loop returns, and when it returns a state (no exception was raised) the work queue of
  that state is empty. In every iteration from a state of the run, every child that the
  iteration enqueues is born strictly after the dequeued person and not after 2120.
\<close>

theorem generation_terminates:
  "(\<exists>r. family_tree F g = Some r \<and> (\<forall>st. r = Inr st \<longrightarrow> queue st = []))
   \<and> (\<exists>r. bootstrap F' g' = Some r \<and> (\<forall>st. r = Inr st \<longrightarrow> queue st = []))
   \<and> ((family_tree_after F g k = Inr st \<and> queue st \<noteq> [] \<and> generate_step F st = Inr st')
        \<or> (bootstrap_after F' g' k = Inr st \<and> queue st \<noteq> [] \<and> expand_step F' st = Inr st')
       \<longrightarrow>
       (\<exists>new. queue st' = tl (queue st) @ new
          \<and> (\<forall>c \<in> set new. year_born (heap st ! hd (queue st)) < year_born (heap st' ! c)
                \<and> year_born (heap st' ! c) \<le> 2120)))"
proof (intro conjI impI)
  show "\<exists>r. family_tree F g = Some r \<and> (\<forall>st. r = Inr st \<longrightarrow> queue st = [])"
    by (rule family_tree_terminates)
  show "\<exists>r. bootstrap F' g' = Some r \<and> (\<forall>st. r = Inr st \<longrightarrow> queue st = [])"
    by (rule bootstrap_terminates)
next
  assume "(family_tree_after F g k = Inr st \<and> queue st \<noteq> [] \<and> generate_step F st = Inr st')
        \<or> (bootstrap_after F' g' k = Inr st \<and> queue st \<noteq> [] \<and> expand_step F' st = Inr st')"
  then have "stepped st st'"
  proof
    assume a: "family_tree_after F g k = Inr st \<and> queue st \<noteq> [] \<and> generate_step F st = Inr st'"
    then have "tree_inv st" using run_state_inv [of F g k st] by blast
    with a show ?thesis by (blast intro: generate_step_stepped)
  next
    assume a: "bootstrap_after F' g' k = Inr st \<and> queue st \<noteq> [] \<and> expand_step F' st = Inr st'"
    then have "tree_inv st" using run_state_inv [of _ _ _ st F' g' k] by blast
    with a show ?thesis by (blast intro: expand_step_stepped)
  qed
  then show "\<exists>new. queue st' = tl (queue st) @ new
          \<and> (\<forall>c \<in> set new. year_born (heap st ! hd (queue st)) < year_born (heap st' ! c)
                \<and> year_born (heap st' ! c) \<le> 2120)"
    unfolding stepped_def by blast
qed

lemma create_founders_total: "\<exists>st0. create_founders F g = Inr st0"
  by (simp add: create_founders_def randint_def new_person_def Let_def)

theorem spouse_relation_symmetric_witness:
  "(\<exists>st. family_tree example_factory one_child_draws = Some (Inr st)
        \<and> registry st = [0, 1, 2, 3]
        \<and> spouse (heap st ! 2) = Some 3 \<and> spouse (heap st ! 3) = Some 2)
   \<and> (\<exists>st0. create_founders example_factory_ai late_spouse_draws = Inr st0
        \<and> spouse_symmetric (heap st0))"
proof -
  obtain st where st: "family_tree example_factory one_child_draws = Some (Inr st)"
    and reg: "registry st = [0, 1, 2, 3]" and sp: "spouse (heap st ! 2) = Some 3"
    using one_child_run by simp
  obtain st0 where st0: "create_founders example_factory_ai late_spouse_draws = Inr st0"
    using create_founders_total by blast
  have run: "family_tree_after example_factory one_child_draws 0 = Inr st
      \<or> family_tree example_factory one_child_draws = Some (Inr st)
      \<or> bootstrap_after example_factory_ai late_spouse_draws 0 = Inr st
      \<or> bootstrap example_factory_ai late_spouse_draws = Some (Inr st)"
    using st by blast
  have init: "init_roots example_factory one_child_draws = Inr st0
      \<or> create_founders example_factory_ai late_spouse_draws = Inr st0"
    using st0 by blast
  have mem: "2 \<in> set (registry st)" using reg by simp
  note T = spouse_relation_symmetric [where F = example_factory and g = one_child_draws
      and k = 0 and st = st and F' = example_factory_ai and g' = late_spouse_draws
      and st0 = st0]
  from T [THEN conjunct1, THEN mp, OF run, THEN bspec, OF mem, THEN spec, THEN mp, OF sp]
  have a: "spouse (heap st ! 3) = Some 2" by (rule conjunct2)
  from T [THEN conjunct2, THEN conjunct1, THEN mp, OF init]
  have b: "spouse_symmetric (heap st0)" .
  from st reg sp a have "\<exists>st. family_tree example_factory one_child_draws = Some (Inr st)
        \<and> registry st = [0, 1, 2, 3]
        \<and> spouse (heap st ! 2) = Some 3 \<and> spouse (heap st ! 3) = Some 2" by blast
  moreover from st0 b have "\<exists>st0. create_founders example_factory_ai late_spouse_draws = Inr st0
        \<and> spouse_symmetric (heap st0)" by blast
  ultimately show ?thesis by (rule conjI)
qed

lemma one_child_init:
  "family_tree_after example_factory one_child_draws 0 = Inr one_child_initial"
  by (simp add: family_tree_after_def run_simps one_child_draws_def one_child_initial_def)

lemma one_child_marriage_step:
  "marriage_step example_factory (hd (queue one_child_initial)) decade
     (one_child_initial\<lparr>queue := tl (queue one_child_initial)\<rparr>)
   = Inr (one_child_initial\<lparr>queue := tl (queue one_child_initial)\<rparr>)"
  by (simp add: marriage_step_def one_child_initial_def)

lemma one_child_first_step:
  "generate_step example_factory one_child_initial = Inr one_child_second"
  by (simp add: run_simps one_child_initial_def one_child_second_def)

theorem generation_terminates_witness:
  "(\<exists>st. family_tree example_factory one_child_draws = Some (Inr st) \<and> queue st = [])
   \<and> family_tree_after example_factory one_child_draws 0 = Inr one_child_initial
   \<and> queue one_child_initial = [0]
   \<and> generate_step example_factory one_child_initial = Inr one_child_second
   \<and> queue one_child_second = [2]
   \<and> year_born (heap one_child_initial ! 0) < year_born (heap one_child_second ! 2)"
proof -
  note T = generation_terminates [where F = example_factory and g = one_child_draws
      and F' = example_factory_ai and g' = late_spouse_draws and k = 0
      and st = one_child_initial and st' = one_child_second]
  from T [THEN conjunct1] obtain r where
    r: "family_tree example_factory one_child_draws = Some r"
    and q: "\<forall>st. r = Inr st \<longrightarrow> queue st = []" by blast
  from r one_child_run have "\<exists>st. r = Inr st" by auto
  then obtain st where st: "r = Inr st" by blast
  with q have "queue st = []" by blast
  with r st have a: "\<exists>st. family_tree example_factory one_child_draws = Some (Inr st)
      \<and> queue st = []" by blast
  have q0: "queue one_child_initial = [0]" by (simp add: one_child_initial_def)
  have q1: "queue one_child_second = [2]" by (simp add: one_child_second_def)
  have hyp: "(family_tree_after example_factory one_child_draws 0 = Inr one_child_initial
        \<and> queue one_child_initial \<noteq> []
        \<and> generate_step example_factory one_child_initial = Inr one_child_second)
      \<or> (bootstrap_after example_factory_ai late_spouse_draws 0 = Inr one_child_initial
        \<and> queue one_child_initial \<noteq> []
        \<and> expand_step example_factory_ai one_child_initial = Inr one_child_second)"
    using one_child_init one_child_first_step q0 by simp
  from T [THEN conjunct2, THEN conjunct2, THEN mp, OF hyp] obtain new where
    new: "queue one_child_second = tl (queue one_child_initial) @ new"
    and yrs: "\<forall>c \<in> set new. year_born (heap one_child_initial ! hd (queue one_child_initial))
         < year_born (heap one_child_second ! c)" by blast
  from new q0 q1 have "new = [2]" by simp
  with yrs q0 have b: "year_born (heap one_child_initial ! 0)
      < year_born (heap one_child_second ! 2)" by simp
  from a one_child_init q0 one_child_first_step q1 b show ?thesis by (intro conjI)
qed

section \<open>Birth years of the materialized children\<close>

lemma children_added_entries:
  assumes "children_added (st1\<lparr>rand := g\<rparr>) years st'" "queue st1 = tl (queue st)"
  shows "\<exists>new. queue st' = tl (queue st) @ new \<and> registry st' = registry st1 @ new
       \<and> (\<forall>c \<in> set new. length (heap st1) \<le> c \<and> c < length (heap st'))
       \<and> map (\<lambda>c. year_born (heap st' ! c)) new = filter (\<lambda>y. y \<le> 2120) years"
  using assms unfolding children_added_def by auto

lemma generate_step_children:
  assumes inv: "tree_inv st" and q: "queue st \<noteq> []" and step: "generate_step F st = Inr st'"
  shows "\<exists>st1 n g1 years new.
      marriage_step F (hd (queue st)) (decade_key (year_born (heap st ! hd (queue st))))
        (st\<lparr>queue := tl (queue st)\<rparr>) = Inr st1
    \<and> draw_num_children F (decade_key (year_born (heap st ! hd (queue st)))) (rand st1)
        = Inr (n, g1)
    \<and> (if n = 0 then years = []
        else distribute_birth_years (parent_year_born (heap st1) (hd (queue st)) + 25)
               (parent_year_born (heap st1) (hd (queue st)) + 45) n = Inr years)
    \<and> add_children F (hd (queue st)) years (st1\<lparr>rand := g1\<rparr>) = Inr st'
    \<and> queue st' = tl (queue st) @ new \<and> registry st' = registry st1 @ new
    \<and> (\<forall>c \<in> set new. length (heap st1) \<le> c \<and> c < length (heap st'))
    \<and> map (\<lambda>c. year_born (heap st' ! c)) new = filter (\<lambda>y. y \<le> 2120) years
    \<and> (\<forall>y \<in> set years. y \<le> 2120 \<longrightarrow>
          1975 \<le> y \<and> clamp_year_to_data y = y
          \<and> (\<forall>g2 p g3. get_person F y g2 = Inr (p, g3) \<longrightarrow> year_born p = y))"
proof -
  let ?cur = "hd (queue st)"
  let ?st0 = "st\<lparr>queue := tl (queue st)\<rparr>"
  let ?decade = "decade_key (year_born (heap st ! ?cur))"
  from inv q have cur: "?cur < length (heap st)" by (simp add: tree_inv_def)
  from generate_step_cases [OF step] obtain st1 n g years where
    m: "marriage_step F ?cur ?decade ?st0 = Inr st1"
    and d: "draw_num_children F ?decade (rand st1) = Inr (n, g)"
    and y: "if n = 0 then years = []
        else distribute_birth_years (parent_year_born (heap st1) ?cur + 25)
               (parent_year_born (heap st1) ?cur + 45) n = Inr years"
    and a: "add_children F ?cur years (st1\<lparr>rand := g\<rparr>) = Inr st'"
    by blast
  from marriage_cases_inv [OF tree_inv_pop [OF inv] _ marriage_step_cases [OF m]] cur
  have st1: "tree_inv st1" "heap_le (heap st) (heap st1)" "queue st1 = tl (queue st)"
    by simp_all
  from st1(2) cur have cur1: "?cur < length (heap st1)" by (simp add: heap_le_def)
  have b: "\<forall>y \<in> set years. 1975 \<le> y"
  proof (cases "n = 0")
    case True
    with y show ?thesis by simp
  next
    case False
    with y child_years_bounds [OF st1(1) cur1] show ?thesis by auto
  qed
  have "children_added (st1\<lparr>rand := g\<rparr>) years st'"
    by (rule add_children_added [OF _ _ a]) (use st1(1) b in \<open>simp_all add: tree_inv_rand\<close>)
  from children_added_entries [OF this st1(3)] obtain new where
    new: "queue st' = tl (queue st) @ new" "registry st' = registry st1 @ new"
      "\<forall>c \<in> set new. length (heap st1) \<le> c \<and> c < length (heap st')"
      "map (\<lambda>c. year_born (heap st' ! c)) new = filter (\<lambda>y. y \<le> 2120) years"
    by blast
  have c: "\<forall>y \<in> set years. y \<le> 2120 \<longrightarrow>
          1975 \<le> y \<and> clamp_year_to_data y = y
          \<and> (\<forall>g2 p g3. get_person F y g2 = Inr (p, g3) \<longrightarrow> year_born p = y)"
  proof (intro ballI impI)
    fix y assume "y \<in> set years" "y \<le> 2120"
    with b have y1: "1975 \<le> y" by blast
    with \<open>y \<le> 2120\<close> have id: "clamp_year_to_data y = y" by (simp add: clamp_year_to_data_def)
    with y1 get_person_fresh [of F y] show "1975 \<le> y \<and> clamp_year_to_data y = y
          \<and> (\<forall>g2 p g3. get_person F y g2 = Inr (p, g3) \<longrightarrow> year_born p = y)"
      by auto
  qed
  from m d y a new c show ?thesis by blast
qed

lemma expand_step_children:
  assumes inv: "tree_inv st" and q: "queue st \<noteq> []" and step: "expand_step F st = Inr st'"
  shows "\<exists>st1 n g1 years new.
      marriage_step_ai F (hd (queue st)) (decade_key (year_born (heap st ! hd (queue st))))
        (st\<lparr>queue := tl (queue st)\<rparr>) = Inr st1
    \<and> draw_num_children_ai F (decade_key (year_born (heap st ! hd (queue st)))) (rand st1)
        = Inr (n, g1)
    \<and> (if n = 0 then years = []
        else spread_birth_years (elder_year (heap st1) (hd (queue st)) + 25)
               (elder_year (heap st1) (hd (queue st)) + 45) n = Inr years)
    \<and> add_children_ai F (hd (queue st)) years (st1\<lparr>rand := g1\<rparr>) = Inr st'
    \<and> queue st' = tl (queue st) @ new \<and> registry st' = registry st1 @ new
    \<and> (\<forall>c \<in> set new. length (heap st1) \<le> c \<and> c < length (heap st'))
    \<and> map (\<lambda>c. year_born (heap st' ! c)) new = filter (\<lambda>y. y \<le> 2120) years
    \<and> (\<forall>y \<in> set years. y \<le> 2120 \<longrightarrow>
          1975 \<le> y \<and> clamp_year y = y
          \<and> (\<forall>ov g2 p g3. get_person_ai F y ov g2 = Inr (p, g3) \<longrightarrow> year_born p = y))"
proof -
  let ?cur = "hd (queue st)"
  let ?st0 = "st\<lparr>queue := tl (queue st)\<rparr>"
  let ?decade = "decade_key (year_born (heap st ! ?cur))"
  from inv q have cur: "?cur < length (heap st)" by (simp add: tree_inv_def)
  from expand_step_cases [OF step] obtain st1 n g years where
    m: "marriage_step_ai F ?cur ?decade ?st0 = Inr st1"
    and d: "draw_num_children_ai F ?decade (rand st1) = Inr (n, g)"
    and y: "if n = 0 then years = []
        else spread_birth_years (elder_year (heap st1) ?cur + 25)
               (elder_year (heap st1) ?cur + 45) n = Inr years"
    and a: "add_children_ai F ?cur years (st1\<lparr>rand := g\<rparr>) = Inr st'"
    by blast
  from marriage_cases_inv [OF tree_inv_pop [OF inv] _ marriage_step_ai_cases [OF m]] cur
  have st1: "tree_inv st1" "heap_le (heap st) (heap st1)" "queue st1 = tl (queue st)"
    by simp_all
  from st1(2) cur have cur1: "?cur < length (heap st1)" by (simp add: heap_le_def)
  have b: "\<forall>y \<in> set years. 1975 \<le> y"
  proof (cases "n = 0")
    case True
    with y show ?thesis by simp
  next
    case False
    with y have "distribute_birth_years (parent_year_born (heap st1) ?cur + 25)
               (parent_year_born (heap st1) ?cur + 45) n = Inr years"
      by (simp add: elder_year_eq spread_birth_years_eq)
    with child_years_bounds [OF st1(1) cur1] show ?thesis by auto
  qed
  have "children_added (st1\<lparr>rand := g\<rparr>) years st'"
    by (rule add_children_ai_added [OF _ _ a]) (use st1(1) b in \<open>simp_all add: tree_inv_rand\<close>)
  from children_added_entries [OF this st1(3)] obtain new where
    new: "queue st' = tl (queue st) @ new" "registry st' = registry st1 @ new"
      "\<forall>c \<in> set new. length (heap st1) \<le> c \<and> c < length (heap st')"
      "map (\<lambda>c. year_born (heap st' ! c)) new = filter (\<lambda>y. y \<le> 2120) years"
    by blast
  have c: "\<forall>y \<in> set years. y \<le> 2120 \<longrightarrow>
          1975 \<le> y \<and> clamp_year y = y
          \<and> (\<forall>ov g2 p g3. get_person_ai F y ov g2 = Inr (p, g3) \<longrightarrow> year_born p = y)"
  proof (intro ballI impI)
    fix y assume "y \<in> set years" "y \<le> 2120"
    with b have y1: "1975 \<le> y" by blast
    with \<open>y \<le> 2120\<close> have id: "clamp_year_to_data y = y" by (simp add: clamp_year_to_data_def)
    with y1 get_person_ai_fresh [of F y] show "1975 \<le> y \<and> clamp_year y = y
          \<and> (\<forall>ov g2 p g3. get_person_ai F y ov g2 = Inr (p, g3) \<longrightarrow> year_born p = y)"
      by (auto simp: clamp_year_eq)
  qed
  from m d y a new c show ?thesis by blast
qed

text \<open>
  Claim C10. In every iteration from a state of a run, the persons that the loop over the
  distributed birth years adds to the registry and to the queue are born, in order, exactly
  in the distributed years that pass the cutoff check: what is appended to both lists are
  freshly allocated persons whose \<open>year_born\<close> are the distributed years up to 2120. Each
  of these years lies in \<open>[1975, 2120]\<close>, so the clamp of the factory leaves it unchanged
  and the person the factory returns for it is born in that year.
\<close>

theorem child_year_not_clamped:
  assumes "queue st \<noteq> []"
  shows "(family_tree_after F g k = Inr st \<and> generate_step F st = Inr st' \<longrightarrow>
      (\<exists>st1 n g1 years new.
          marriage_step F (hd (queue st)) (decade_key (year_born (heap st ! hd (queue st))))
            (st\<lparr>queue := tl (queue st)\<rparr>) = Inr st1
        \<and> draw_num_children F (decade_key (year_born (heap st ! hd (queue st)))) (rand st1)
            = Inr (n, g1)
        \<and> (if n = 0 then years = []
            else distribute_birth_years (parent_year_born (heap st1) (hd (queue st)) + 25)
                   (parent_year_born (heap st1) (hd (queue st)) + 45) n = Inr years)
        \<and> add_children F (hd (queue st)) years (st1\<lparr>rand := g1\<rparr>) = Inr st'
        \<and> queue st' = tl (queue st) @ new \<and> registry st' = registry st1 @ new
        \<and> (\<forall>c \<in> set new. length (heap st1) \<le> c \<and> c < length (heap st'))
        \<and> map (\<lambda>c. year_born (heap st' ! c)) new = filter (\<lambda>y. y \<le> 2120) years
        \<and> (\<forall>y \<in> set years. y \<le> 2120 \<longrightarrow>
              1975 \<le> y \<and> clamp_year_to_data y = y
              \<and> (\<forall>g2 p g3. get_person F y g2 = Inr (p, g3) \<longrightarrow> year_born p = y))))
    \<and> (bootstrap_after F' g' k = Inr st \<and> expand_step F' st = Inr st' \<longrightarrow>
      (\<exists>st1 n g1 years new.
          marriage_step_ai F' (hd (queue st)) (decade_key (year_born (heap st ! hd (queue st))))
            (st\<lparr>queue := tl (queue st)\<rparr>) = Inr st1
        \<and> draw_num_children_ai F' (decade_key (year_born (heap st ! hd (queue st)))) (rand st1)
            = Inr (n, g1)
        \<and> (if n = 0 then years = []
            else spread_birth_years (elder_year (heap st1) (hd (queue st)) + 25)
                   (elder_year (heap st1) (hd (queue st)) + 45) n = Inr years)
        \<and> add_children_ai F' (hd (queue st)) years (st1\<lparr>rand := g1\<rparr>) = Inr st'
        \<and> queue st' = tl (queue st) @ new \<and> registry st' = registry st1 @ new
        \<and> (\<forall>c \<in> set new. length (heap st1) \<le> c \<and> c < length (heap st'))
        \<and> map (\<lambda>c. year_born (heap st' ! c)) new = filter (\<lambda>y. y \<le> 2120) years
        \<and> (\<forall>y \<in> set years. y \<le> 2120 \<longrightarrow>
              1975 \<le> y \<and> clamp_year y = y
              \<and> (\<forall>ov g2 p g3. get_person_ai F' y ov g2 = Inr (p, g3) \<longrightarrow> year_born p = y))))"
proof (intro conjI impI)
  assume a: "family_tree_after F g k = Inr st \<and> generate_step F st = Inr st'"
  then have "tree_inv st" using run_state_inv [of F g k st] by blast
  from generate_step_children [OF this assms] a
  show "\<exists>st1 n g1 years new.
          marriage_step F (hd (queue st)) (decade_key (year_born (heap st ! hd (queue st))))
            (st\<lparr>queue := tl (queue st)\<rparr>) = Inr st1
        \<and> draw_num_children F (decade_key (year_born (heap st ! hd (queue st)))) (rand st1)
            = Inr (n, g1)
        \<and> (if n = 0 then years = []
            else distribute_birth_years (parent_year_born (heap st1) (hd (queue st)) + 25)
                   (parent_year_born (heap st1) (hd (queue st)) + 45) n = Inr years)
        \<and> add_children F (hd (queue st)) years (st1\<lparr>rand := g1\<rparr>) = Inr st'
        \<and> queue st' = tl (queue st) @ new \<and> registry st' = registry st1 @ new
        \<and> (\<forall>c \<in> set new. length (heap st1) \<le> c \<and> c < length (heap st'))
        \<and> map (\<lambda>c. year_born (heap st' ! c)) new = filter (\<lambda>y. y \<le> 2120) years
        \<and> (\<forall>y \<in> set years. y \<le> 2120 \<longrightarrow>
              1975 \<le> y \<and> clamp_year_to_data y = y
              \<and> (\<forall>g2 p g3. get_person F y g2 = Inr (p, g3) \<longrightarrow> year_born p = y))"
    by blast
next
  assume a: "bootstrap_after F' g' k = Inr st \<and> expand_step F' st = Inr st'"
  then have "tree_inv st" using run_state_inv [of _ _ _ st F' g' k] by blast
  from expand_step_children [OF this assms] a
  show "\<exists>st1 n g1 years new.
          marriage_step_ai F' (hd (queue st)) (decade_key (year_born (heap st ! hd (queue st))))
            (st\<lparr>queue := tl (queue st)\<rparr>) = Inr st1
        \<and> draw_num_children_ai F' (decade_key (year_born (heap st ! hd (queue st)))) (rand st1)
            = Inr (n, g1)
        \<and> (if n = 0 then years = []
            else spread_birth_years (elder_year (heap st1) (hd (queue st)) + 25)
                   (elder_year (heap st1) (hd (queue st)) + 45) n = Inr years)
        \<and> add_children_ai F' (hd (queue st)) years (st1\<lparr>rand := g1\<rparr>) = Inr st'
        \<and> queue st' = tl (queue st) @ new \<and> registry st' = registry st1 @ new
        \<and> (\<forall>c \<in> set new. length (heap st1) \<le> c \<and> c < length (heap st'))
        \<and> map (\<lambda>c. year_born (heap st' ! c)) new = filter (\<lambda>y. y \<le> 2120) years
        \<and> (\<forall>y \<in> set years. y \<le> 2120 \<longrightarrow>
              1975 \<le> y \<and> clamp_year y = y
              \<and> (\<forall>ov g2 p g3. get_person_ai F' y ov g2 = Inr (p, g3) \<longrightarrow> year_born p = y))"
    by blast
qed

theorem child_year_not_clamped_witness:
  "queue one_child_initial \<noteq> []
   \<and> family_tree_after example_factory one_child_draws 0 = Inr one_child_initial
   \<and> generate_step example_factory one_child_initial = Inr one_child_second
   \<and> distribute_birth_years 1975 1995 1 = Inr [1985]
   \<and> queue one_child_second = tl (queue one_child_initial) @ [2]
   \<and> registry one_child_second = registry one_child_initial @ [2]
   \<and> map (\<lambda>c. year_born (heap one_child_second ! c)) [2] = filter (\<lambda>y. y \<le> 2120) [1985]
   \<and> clamp_year_to_data 1985 = 1985"
proof -
  have q: "queue one_child_initial \<noteq> []" by (simp add: one_child_initial_def)
  have hyp: "family_tree_after example_factory one_child_draws 0 = Inr one_child_initial
      \<and> generate_step example_factory one_child_initial = Inr one_child_second"
    using one_child_init one_child_first_step by simp
  note T = child_year_not_clamped [where st = one_child_initial and F = example_factory
      and g = one_child_draws and k = 0 and st' = one_child_second
      and F' = example_factory_ai and g' = late_spouse_draws, OF q]
  from T [THEN conjunct1, THEN mp, OF hyp] obtain st1 n g1 years new where
    m: "marriage_step example_factory (hd (queue one_child_initial))
          (decade_key (year_born (heap one_child_initial ! hd (queue one_child_initial))))
          (one_child_initial\<lparr>queue := tl (queue one_child_initial)\<rparr>) = Inr st1"
    and d: "draw_num_children example_factory
          (decade_key (year_born (heap one_child_initial ! hd (queue one_child_initial))))
          (rand st1) = Inr (n, g1)"
    and y: "if n = 0 then years = []
        else distribute_birth_years
               (parent_year_born (heap st1) (hd (queue one_child_initial)) + 25)
               (parent_year_born (heap st1) (hd (queue one_child_initial)) + 45) n = Inr years"
    and qu: "queue one_child_second = tl (queue one_child_initial) @ new"
    and reg: "registry one_child_second = registry st1 @ new"
    and yrs: "map (\<lambda>c. year_born (heap one_child_second ! c)) new
              = filter (\<lambda>y. y \<le> 2120) years"
    and cl: "\<forall>y \<in> set years. y \<le> 2120 \<longrightarrow> 1975 \<le> y \<and> clamp_year_to_data y = y
          \<and> (\<forall>g2 p g3. get_person example_factory y g2 = Inr (p, g3) \<longrightarrow> year_born p = y)"
    by blast
  from m one_child_marriage_step
  have st1: "st1 = one_child_initial\<lparr>queue := tl (queue one_child_initial)\<rparr>" by simp
  from d have n: "n = 1"
    by (simp add: st1 one_child_initial_def draw_num_children_example)
  have py: "parent_year_born (heap st1) (hd (queue one_child_initial)) = 1950"
    by (simp add: st1 parent_year_born_def one_child_initial_def)
  have ex: "distribute_birth_years 1975 1995 1 = Inr [1985]" by (rule spread_examples)
  from y n py ex have years: "years = [1985]" by simp
  from qu have new: "new = [2]" by (simp add: one_child_initial_def one_child_second_def)
  from cl years have c: "clamp_year_to_data 1985 = 1985" by simp
  from reg have r: "registry one_child_second = registry one_child_initial @ [2]"
    by (simp add: st1 new)
  from q hyp ex qu [unfolded new] r yrs [unfolded new years] c show ?thesis by (intro conjI) simp_all
qed

section \<open>Lifespans\<close>

lemma py_int_ge_floor: "\<lfloor>x\<rfloor> \<le> py_int x"
  by (simp add: py_int_def floor_le_ceiling)

lemma year_died_after_year_born:
  assumes "11 \<le> life_exp" "- 10 \<le> noise"
  shows "yb < py_int (of_int yb + life_exp + of_int noise)"
proof -
  have "of_int (yb + 1) \<le> of_int yb + life_exp + (of_int noise :: rat)"
  proof -
    have "(- 10 :: rat) \<le> of_int noise" using assms(2) by (metis of_int_le_iff of_int_minus of_int_numeral)
    with assms(1) show ?thesis by simp
  qed
  then have "yb + 1 \<le> \<lfloor>of_int yb + life_exp + (of_int noise :: rat)\<rfloor>"
    by (simp only: le_floor_iff)
  with py_int_ge_floor [of "of_int yb + life_exp + of_int noise"]
  show ?thesis by linarith
qed

lemma get_person_died:
  assumes "get_person F year g = Inr (p, g1)"
  shows "\<exists>life_exp noise.
           life_expectancy_by_decade F (decade_key (year_born p)) = Some life_exp
           \<and> - 10 \<le> noise \<and> noise \<le> 10
           \<and> year_died p = py_int (of_int (year_born p) + life_exp + of_int noise)"
proof -
  let ?decade = "decade_key (clamp_year_to_data year)"
  from assms obtain fname ga where
    a: "weighted_choice (defaultdict_get (first_name_by_decade F) ?decade) g = Inr (fname, ga)"
    by (auto simp: get_person_def Let_def split: sum.splits)
  from assms a obtain lname gb where
    b: "weighted_choice (defaultdict_get (last_name_by_decade F) ?decade) ga = Inr (lname, gb)"
    by (auto simp: get_person_def Let_def split: sum.splits)
  from assms a b obtain life_exp where
    c: "life_expectancy_by_decade F ?decade = Some life_exp"
    by (auto simp: get_person_def Let_def split: option.splits)
  from assms a b c obtain noise gc where d: "randint (- 10) 10 gb = Inr (noise, gc)"
    by (auto simp: get_person_def Let_def split: sum.splits)
  from assms a b c d have
    "year_born p = clamp_year_to_data year"
    "year_died p = py_int (of_int (clamp_year_to_data year) + life_exp + of_int noise)"
    by (auto simp: get_person_def Let_def)
  with c randint_range [OF d] show ?thesis by auto
qed

lemma get_person_ai_died:
  assumes "get_person_ai F year ov g = Inr (p, g1)"
  shows "\<exists>noise. - 10 \<le> noise \<and> noise \<le> 10
           \<and> year_died p = py_int (of_int (year_born p)
                + dict_get (life_expectancy F) (decade_key (year_born p)) 80 + of_int noise)"
proof -
  let ?decade = "decade_key (clamp_year year)"
  from assms obtain gender ga where
    a: "choice [''male'', ''female''] g = Inr (gender, ga)"
    by (auto simp: get_person_ai_def Let_def split: sum.splits)
  from assms a obtain fname gb where
    b: "weighted_pick (dict_get (first_names F) (?decade, gender) [(''Unknown'', 1)]) ga
        = Inr (fname, gb)"
    by (auto simp: get_person_ai_def Let_def split: sum.splits)
  from assms a b obtain lname gc where
    c: "(case ov of Some n \<Rightarrow> Inr (n, gb)
         | None \<Rightarrow> weighted_pick (dict_get (last_names F) ?decade [(''Unknown'', 1)]) gb)
        = Inr (lname, gc)"
    by (auto simp: get_person_ai_def Let_def split: sum.splits)
  from assms a b c obtain noise gd where d: "randint (- 10) 10 gc = Inr (noise, gd)"
    by (auto simp: get_person_ai_def Let_def split: sum.splits)
  from assms a b c d have
    "year_born p = clamp_year year"
    "year_died p = py_int (of_int (clamp_year year)
        + dict_get (life_expectancy F) ?decade 80 + of_int noise)"
    by (auto simp: get_person_ai_def Let_def)
  with randint_range [OF d] show ?thesis by auto
qed

text \<open>
  Claim C8. A person that \<open>get_person\<close> returns dies in the year
  \<open>year_born + life_expectancy + noise\<close> truncated to an integer, the noise an integer of
  \<open>[-10, 10]\<close> and the life expectancy the one looked up for the decade of birth (in
  \<^verbatim>\<open>person_factory_ai.py\<close> 80 when the decade is missing); when that life expectancy is at
  least 11 the person dies after the year of birth.
\<close>

theorem lifespan_positive:
  "(get_person F year g = Inr (p, g1) \<longrightarrow>
      (\<exists>life_exp noise.
          life_expectancy_by_decade F (decade_key (year_born p)) = Some life_exp
          \<and> - 10 \<le> noise \<and> noise \<le> 10
          \<and> year_died p = py_int (of_int (year_born p) + life_exp + of_int noise)
          \<and> (11 \<le> life_exp \<longrightarrow> year_born p < year_died p)))
   \<and> (get_person_ai F' year ov g = Inr (p', g2) \<longrightarrow>
      (\<exists>noise. - 10 \<le> noise \<and> noise \<le> 10
          \<and> year_died p' = py_int (of_int (year_born p')
                + dict_get (life_expectancy F') (decade_key (year_born p')) 80 + of_int noise)
          \<and> (11 \<le> dict_get (life_expectancy F') (decade_key (year_born p')) 80 \<longrightarrow>
                year_born p' < year_died p')))"
proof (intro conjI impI)
  assume "get_person F year g = Inr (p, g1)"
  from get_person_died [OF this] obtain life_exp noise where
    a: "life_expectancy_by_decade F (decade_key (year_born p)) = Some life_exp"
      "- 10 \<le> noise" "noise \<le> 10"
      "year_died p = py_int (of_int (year_born p) + life_exp + of_int noise)"
    by blast
  have "11 \<le> life_exp \<longrightarrow> year_born p < year_died p"
    using year_died_after_year_born [of life_exp noise "year_born p"] a(2,4) by simp
  with a show "\<exists>life_exp noise.
          life_expectancy_by_decade F (decade_key (year_born p)) = Some life_exp
          \<and> - 10 \<le> noise \<and> noise \<le> 10
          \<and> year_died p = py_int (of_int (year_born p) + life_exp + of_int noise)
          \<and> (11 \<le> life_exp \<longrightarrow> year_born p < year_died p)"
    by blast
next
  assume "get_person_ai F' year ov g = Inr (p', g2)"
  from get_person_ai_died [OF this] obtain noise where
    a: "- 10 \<le> noise" "noise \<le> 10"
      "year_died p' = py_int (of_int (year_born p')
          + dict_get (life_expectancy F') (decade_key (year_born p')) 80 + of_int noise)"
    by blast
  have "11 \<le> dict_get (life_expectancy F') (decade_key (year_born p')) 80 \<longrightarrow>
          year_born p' < year_died p'"
    using year_died_after_year_born
      [of "dict_get (life_expectancy F') (decade_key (year_born p')) 80" noise "year_born p'"]
      a(1,3) by simp
  with a show "\<exists>noise. - 10 \<le> noise \<and> noise \<le> 10
          \<and> year_died p' = py_int (of_int (year_born p')
                + dict_get (life_expectancy F') (decade_key (year_born p')) 80 + of_int noise)
          \<and> (11 \<le> dict_get (life_expectancy F') (decade_key (year_born p')) 80 \<longrightarrow>
                year_born p' < year_died p')"
    by blast
qed

theorem lifespan_positive_witness:
  "(\<exists>p g1. get_person example_factory 1985 (sconst 0) = Inr (p, g1)
      \<and> life_expectancy_by_decade example_factory (decade_key (year_born p)) = Some 80
      \<and> (11 :: rat) \<le> 80 \<and> year_born p < year_died p)
   \<and> (\<exists>p' g2. get_person_ai example_factory_ai 1985 None (sconst 0) = Inr (p', g2)
      \<and> (11 :: rat) \<le> dict_get (life_expectancy example_factory_ai)
            (decade_key (year_born p')) 80
      \<and> year_born p' < year_died p')"
proof -
  obtain p g1 where p: "get_person example_factory 1985 (sconst 0) = Inr (p, g1)"
    by (simp add: get_person_example)
  obtain p' g2 where p': "get_person_ai example_factory_ai 1985 None (sconst 0) = Inr (p', g2)"
    by (simp add: get_person_ai_example)
  note T = lifespan_positive [where F = example_factory and year = 1985 and g = "sconst 0"
      and p = p and ?g1.0 = g1 and F' = example_factory_ai and ov = None and p' = p'
      and ?g2.0 = g2]
  have le: "life_expectancy_by_decade example_factory (decade_key (year_born p)) = Some 80"
    by (simp add: example_factory_def)
  have le': "dict_get (life_expectancy example_factory_ai) (decade_key (year_born p')) 80 = 80"
    by (simp add: example_factory_ai_def dict_get_def)
  from T [THEN conjunct1, THEN mp, OF p] le have a: "year_born p < year_died p" by auto
  from T [THEN conjunct2, THEN mp, OF p'] le' have b: "year_born p' < year_died p'" by auto
  from p le a have "\<exists>p g1. get_person example_factory 1985 (sconst 0) = Inr (p, g1)
      \<and> life_expectancy_by_decade example_factory (decade_key (year_born p)) = Some 80
      \<and> (11 :: rat) \<le> 80 \<and> year_born p < year_died p" by auto
  moreover from p' le' b
  have "\<exists>p' g2. get_person_ai example_factory_ai 1985 None (sconst 0) = Inr (p', g2)
      \<and> (11 :: rat) \<le> dict_get (life_expectancy example_factory_ai)
            (decade_key (year_born p')) 80
      \<and> year_born p' < year_died p'" by auto
  ultimately show ?thesis by (rule conjI)
qed

section \<open>The number of children\<close>

lemma draw_num_children_ai_range:
  assumes "draw_num_children_ai F decade g = Inr (n, g1)"
  shows "0 \<le> n \<and> max 0 \<lceil>get_birth_rate F decade - 3 / 2\<rceil> \<le> n
       \<and> n \<le> \<lceil>get_birth_rate F decade + 3 / 2\<rceil>"
  using randint_range [of "max 0 \<lceil>get_birth_rate F decade - 3 / 2\<rceil>"
      "\<lceil>get_birth_rate F decade + 3 / 2\<rceil>" g n g1] assms
  by (simp add: draw_num_children_ai_def Let_def)

lemma draw_num_children_ai_total:
  assumes "- 5 / 2 < get_birth_rate F decade"
  shows "\<exists>n. draw_num_children_ai F decade g = Inr (n, stl g)"
proof -
  let ?b = "get_birth_rate F decade"
  have "\<lceil>?b - 3 / 2\<rceil> \<le> \<lceil>?b + 3 / 2\<rceil>" by (rule ceiling_mono) simp
  moreover have "0 \<le> \<lceil>?b + 3 / 2\<rceil>"
  proof -
    have "- 1 < \<lceil>?b + 3 / 2\<rceil>" unfolding less_ceiling_iff using assms by simp
    then show ?thesis by linarith
  qed
  ultimately have "max 0 \<lceil>?b - 3 / 2\<rceil> \<le> \<lceil>?b + 3 / 2\<rceil>" by simp
  from randint_total [OF this] show ?thesis by (simp add: draw_num_children_ai_def Let_def)
qed

text \<open>
  Claim C6 on \<^verbatim>\<open>FamilyTree.py\<close>: with a birth rate of 0.3 the range of the draw is
  \<open>[-1, 2]\<close>, and the draw returns \<open>-1\<close>.
\<close>

theorem draw_num_children_negative:
  "draw_num_children low_birth_rate_factory ''1950s'' (sconst 0) = Inr (- 1, sconst 0)"
  using ceiling_examples
  by (simp add: draw_num_children_def low_birth_rate_factory_def example_factory_def
      randint_def)

section \<open>Missing decade keys\<close>

lemma marriage_step_ai_not_KeyError: "marriage_step_ai F cur decade st \<noteq> Inl KeyError"
  by (auto simp: marriage_step_ai_def Let_def randint_not_KeyError get_person_ai_not_KeyError
      split: sum.splits prod.splits)

lemma add_children_ai_not_KeyError: "add_children_ai F cur years st \<noteq> Inl KeyError"
proof (induction years arbitrary: st)
  case Nil
  show ?case by simp
next
  case (Cons y ys)
  show ?case
  proof (cases "CUTOFF_YEAR < y")
    case True
    with Cons show ?thesis by simp
  next
    case False
    show ?thesis
    proof (cases "choice FOUNDER_LAST_NAMES (rand st)")
      case (Inl e)
      with False choice_not_KeyError [of FOUNDER_LAST_NAMES "rand st"] show ?thesis by simp
    next
      case (Inr a)
      obtain lname g1 where a: "a = (lname, g1)" by (cases a)
      show ?thesis
      proof (cases "get_person_ai F y (Some lname) g1")
        case (Inl e)
        with False Inr a get_person_ai_not_KeyError [of F y "Some lname" g1]
        show ?thesis by simp
      next
        case c: (Inr b)
        obtain child g2 where b: "b = (child, g2)" by (cases b)
        from False Inr a c b Cons show ?thesis by (simp add: Let_def new_person_def)
      qed
    qed
  qed
qed

lemma draw_num_children_ai_not_KeyError: "draw_num_children_ai F decade g \<noteq> Inl KeyError"
  by (simp add: draw_num_children_ai_def Let_def randint_not_KeyError)

lemma spread_birth_years_not_KeyError: "spread_birth_years s e n \<noteq> Inl KeyError"
  using distribute_birth_years_error [of s e n KeyError] by (auto simp: spread_birth_years_eq)

lemma expand_step_not_KeyError: "expand_step F st \<noteq> Inl KeyError"
  unfolding expand_step_def Let_def
  using marriage_step_ai_not_KeyError draw_num_children_ai_not_KeyError
    add_children_ai_not_KeyError spread_birth_years_not_KeyError
  by (auto split: sum.splits prod.splits)

lemma create_founders_not_KeyError: "create_founders F g \<noteq> Inl KeyError"
  by (simp add: create_founders_def randint_def Let_def new_person_def)

lemma expand_iteration_not_KeyError:
  "r \<noteq> Inl KeyError \<Longrightarrow> expand_iteration F r \<noteq> Inl KeyError"
  by (cases r) (simp_all add: expand_iteration_def expand_step_not_KeyError)

lemma bootstrap_after_not_KeyError: "bootstrap_after F g k \<noteq> Inl KeyError"
  by (induction k)
     (simp_all add: bootstrap_after_def create_founders_not_KeyError
        expand_iteration_not_KeyError)

lemma bootstrap_not_KeyError: "bootstrap F g \<noteq> Some (Inl KeyError)"
proof
  assume a: "bootstrap F g = Some (Inl KeyError)"
  have "Inl KeyError \<noteq> (Inl KeyError :: error + tree_state)"
    by (rule while_option_rule [where P = "\<lambda>r. r \<noteq> Inl KeyError" and b = pending
          and c = "expand_iteration F" and s = "create_founders F g"])
       (use a in \<open>simp_all add: expand_iteration_not_KeyError create_founders_not_KeyError
          bootstrap_def expand_tree_def\<close>)
  then show False by simp
qed

text \<open>
  Claim C3, as the code has it. In \<^verbatim>\<open>person_factory_ai.py\<close> a lookup of the marriage rate,
  the birth rate or the life expectancy of a decade that the tables lack returns the
  default 0.5, 2.0 or 80.0, and no run of \<^verbatim>\<open>family_tree_ai.py\<close> ends in \<^verbatim>\<open>KeyError\<close>.
  \<^verbatim>\<open>FamilyTree.py\<close> and \<^verbatim>\<open>PersonFactory.py\<close> have no default: there the lookup of a
  missing decade raises \<^verbatim>\<open>KeyError\<close>.
\<close>

theorem lookup_fallbacks:
  "(marriage_rates F' decade = None \<longrightarrow> get_marriage_rate F' decade = 1 / 2)
   \<and> (birth_rates F' decade = None \<longrightarrow> get_birth_rate F' decade = 2)
   \<and> (life_expectancy F' decade = None \<longrightarrow> get_life_expectancy F' decade = 80)
   \<and> bootstrap_after F' g k \<noteq> Inl KeyError
   \<and> bootstrap F' g \<noteq> Some (Inl KeyError)
   \<and> (marriage_rate_by_decade F decade = None \<and> spouse (heap st ! cur) = None \<longrightarrow>
        marriage_step F cur decade st = Inl KeyError)
   \<and> (birth_rate_by_decade F decade = None \<longrightarrow> draw_num_children F decade g = Inl KeyError)
   \<and> (life_expectancy_by_decade F (decade_key year) = None \<longrightarrow>
        determine_year_died F year g = Inl KeyError)"
  by (simp add: get_marriage_rate_def get_birth_rate_def get_life_expectancy_def dict_get_def
      bootstrap_after_not_KeyError bootstrap_not_KeyError marriage_step_def
      draw_num_children_def determine_year_died_def)

theorem lookup_fallbacks_witness:
  "marriage_rates example_factory_ai ''2120s'' = None
   \<and> get_marriage_rate example_factory_ai ''2120s'' = 1 / 2
   \<and> life_expectancy example_factory_ai ''2120s'' = None
   \<and> get_life_expectancy example_factory_ai ''2120s'' = 80
   \<and> bootstrap example_factory_ai late_spouse_draws \<noteq> Some (Inl KeyError)
   \<and> birth_rate_by_decade no_birth_rate_factory ''2120s'' = None
   \<and> draw_num_children no_birth_rate_factory ''2120s'' (sconst 0) = Inl KeyError"
proof -
  note T = lookup_fallbacks [where F' = example_factory_ai and decade = "''2120s''"
      and g = late_spouse_draws and k = 0 and F = no_birth_rate_factory
      and st = one_child_initial and cur = 0 and year = 1950]
  note U = lookup_fallbacks [where F' = example_factory_ai and decade = "''2120s''"
      and g = "sconst 0" and k = 0 and F = no_birth_rate_factory
      and st = one_child_initial and cur = 0 and year = 1950]
  have a: "marriage_rates example_factory_ai ''2120s'' = None"
    and b: "life_expectancy example_factory_ai ''2120s'' = None"
    by (simp_all add: example_factory_ai_def)
  have c: "birth_rate_by_decade no_birth_rate_factory ''2120s'' = None"
    by (simp add: no_birth_rate_factory_def)
  from T [THEN conjunct1, THEN mp, OF a]
    T [THEN conjunct2, THEN conjunct2, THEN conjunct1, THEN mp, OF b]
    T [THEN conjunct2, THEN conjunct2, THEN conjunct2, THEN conjunct2, THEN conjunct1]
    U [THEN conjunct2, THEN conjunct2, THEN conjunct2, THEN conjunct2, THEN conjunct2,
       THEN conjunct2, THEN conjunct1, THEN mp, OF c]
    a b c
  show ?thesis by (intro conjI)
qed

theorem lookup_fallbacks_counterexample:
  "birth_rate_by_decade no_birth_rate_factory (decade_key 1950) = None
   \<and> family_tree no_birth_rate_factory one_child_draws = Some (Inl KeyError)"
  by (simp add: family_tree_def generate_family_tree_def pending_def generate_iteration_def
      generate_step_def init_roots_def determine_year_died_def no_birth_rate_factory_def
      example_factory_def marriage_step_def draw_num_children_def randint_def new_person_def
      set_spouse_def py_int_def Let_def one_child_draws_def while_option_unfold)

end
